theory Spec2Isabelle
  imports
    Complex_Main
    "HOL-Library.Char_ord"
    "HOL-Library.List_Lexorder"
    "HOL-Library.Sublist"
    "HOL-Library.AList"
begin

chapter \<open>The http-logger daemon: internal/logger/logger.go\<close>

text \<open>
  Go strings are byte sequences and so are HOL strings (\<open>char list\<close>, 8-bit characters).
  \<open>sort.Strings\<close> compares byte-wise, which is the lexicographic order on \<open>char list\<close>
  given by \<open>Char_ord\<close> and \<open>List_Lexorder\<close>. Go's \<open>int\<close> and \<open>time.Duration\<close> are 64-bit;
  they are modelled as \<open>int\<close>: no claim below depends on a counter of more than
  \<open>2^63\<close> hits.
\<close>

section \<open>Formatting\<close>

definition NL :: char where
  "NL = CHR 0x0A"

definition digit_char :: "nat \<Rightarrow> char" where
  "digit_char d = ''0123456789'' ! d"

fun Itoa_nat :: "nat \<Rightarrow> string" where
  "Itoa_nat n = (if n < 10 then [digit_char n] else Itoa_nat (n div 10) @ [digit_char (n mod 10)])"

declare Itoa_nat.simps [simp del]

text \<open>\<open>strings.Join\<close>.\<close>

fun Join :: "string list \<Rightarrow> string \<Rightarrow> string" where
  "Join [] sep = []"
| "Join [a] sep = a"
| "Join (a # b # rest) sep = a @ sep @ Join (b # rest) sep"

subsection \<open>float64 arithmetic and the verb \<open>%0.2f\<close>\<close>

text \<open>
  The rates are computed in \<open>float64\<close>. A finite double is modelled by the rational it
  denotes; every operation rounds its exact result to the nearest double, ties to even
  (53 significant bits). For 64-bit operands all values that occur here lie in the normal
  range, so no exponent bound is modelled. Division by a zero interval gives an infinity or
  NaN, as IEEE 754 and Go do.
\<close>

datatype float64 = Finite rat | NegZero | PosInf | NegInf | NaN

definition round_half_even :: "rat \<Rightarrow> int" where
  "round_half_even x =
     (let f = \<lfloor>x\<rfloor>; d = x - of_int f
      in if d < 1 / 2 then f else if 1 / 2 < d then f + 1 else if even f then f else f + 1)"

fun bit_length :: "nat \<Rightarrow> nat" where
  "bit_length n = (if n = 0 then 0 else Suc (bit_length (n div 2)))"

declare bit_length.simps [simp del]

text \<open>For \<open>0 < x\<close>, \<open>binade x\<close> is the exponent \<open>e\<close> with \<open>2^e \<le> x < 2^(e+1)\<close>.\<close>

definition binade :: "rat \<Rightarrow> int" where
  "binade x =
     (if 1 \<le> x then int (bit_length (nat \<lfloor>x\<rfloor>)) - 1
      else - int (bit_length (nat (\<lceil>1 / x\<rceil> - 1))))"

definition pow2 :: "int \<Rightarrow> rat" where
  "pow2 e = (if 0 \<le> e then 2 ^ nat e else 1 / 2 ^ nat (- e))"

definition round_float64 :: "rat \<Rightarrow> rat" where
  "round_float64 x =
     (if x = 0 then 0
      else let u = pow2 (binade \<bar>x\<bar> - 52)
           in sgn x * of_int (round_half_even (\<bar>x\<bar> / u)) * u)"

text \<open>Division of two finite doubles (a zero operand here is always \<open>+0\<close>).\<close>

definition float64_div :: "rat \<Rightarrow> rat \<Rightarrow> float64" where
  "float64_div a b =
     (if b = 0 then (if a = 0 then NaN else if 0 < a then PosInf else NegInf)
      else if a = 0 then (if b < 0 then NegZero else Finite 0)
      else Finite (round_float64 (a / b)))"

definition Second :: int where
  "Second = 1000000000"

text \<open>
  \<open>float64(hits) * float64(time.Second) / float64(interval)\<close>, evaluated left to right
  as Go does.
\<close>

definition hitsPerSecond :: "int \<Rightarrow> int \<Rightarrow> float64" where
  "hitsPerSecond hits interval =
     float64_div
       (round_float64 (round_float64 (of_int hits) * round_float64 (of_int Second)))
       (round_float64 (of_int interval))"

text \<open>
  \<open>%0.2f\<close>: the exact value of the double, rounded to two decimals, ties to even
  (strconv's decimal conversion); the flag \<open>0\<close> has no effect without a width.
\<close>

definition fixed2 :: "rat \<Rightarrow> string" where
  "fixed2 x =
     (let n = nat (round_half_even (x * 100))
      in Itoa_nat (n div 100) @ ''.'' @ [digit_char (n mod 100 div 10), digit_char (n mod 10)])"

fun fmt_0_2f :: "float64 \<Rightarrow> string" where
  "fmt_0_2f (Finite x) = (if x < 0 then ''-'' else '''') @ fixed2 \<bar>x\<bar>"
| "fmt_0_2f NegZero = ''-0.00''"
| "fmt_0_2f PosInf = ''+Inf''"
| "fmt_0_2f NegInf = ''-Inf''"
| "fmt_0_2f NaN = ''NaN''"

section \<open>Config and the logger's state\<close>

text \<open>
  \<open>Output\<close> is the \<open>io.Writer\<close>: the model keeps what has been written to it, one
  element per \<open>Fprintf\<close>/\<open>Fprintln\<close> call, oldest first. \<open>Input\<close> is not a field: the lines
  read from it are arguments of the reader loop. The durations are in nanoseconds.
\<close>

record Config =
  Output :: "string list"
  UpdateInterval :: int
  HighTrafficInterval :: int
  HighTrafficThreshold :: int

text \<open>
  \<open>sectionHits\<close> is a Go map. It is kept as an association list with one entry per key;
  \<open>range\<close> visits a map in an unspecified order, and the list's order stands for the order
  of one iteration, so a statement about every list is a statement about every
  iteration order. The mutex \<open>sectionHitsLock\<close> is not part of the sequential state.
\<close>

record logger = Config +
  sectionHits :: "(string \<times> int) list"
  totalTraffic :: int
  isHighTrafficTriggered :: bool

text \<open>\<open>m[k]\<close> reads zero for a missing key; \<open>m[k]++\<close> stores the incremented count.\<close>

definition hitsOf :: "(string \<times> int) list \<Rightarrow> string \<Rightarrow> int" where
  "hitsOf m k = (case map_of m k of None \<Rightarrow> 0 | Some v \<Rightarrow> v)"

definition increment :: "(string \<times> int) list \<Rightarrow> string \<Rightarrow> (string \<times> int) list" where
  "increment m k = AList.update k (hitsOf m k + 1) m"

section \<open>printUpdate\<close>

text \<open>The \<open>range\<close> loop of \<open>printUpdate\<close>, carrying \<open>maxHits\<close> and \<open>activeSections\<close>.\<close>

fun scanSections :: "(string \<times> int) list \<Rightarrow> int \<Rightarrow> string list \<Rightarrow> int \<times> string list" where
  "scanSections [] maxHits activeSections = (maxHits, activeSections)"
| "scanSections ((section, hits) # rest) maxHits activeSections =
     (let (maxHits, activeSections) =
            (if hits > maxHits then (hits, []) else (maxHits, activeSections));
          activeSections =
            (if maxHits = hits then activeSections @ [section] else activeSections)
      in scanSections rest maxHits activeSections)"

definition printUpdate :: "'a logger_scheme \<Rightarrow> 'a logger_scheme" where
  "printUpdate lg =
     (let oldSectionHits = sectionHits lg;
          lg = lg\<lparr>sectionHits := []\<rparr>;
          (maxHits, activeSections) = scanSections oldSectionHits 0 [];
          rate = hitsPerSecond maxHits (UpdateInterval lg)
      in if maxHits = 0
         then lg\<lparr>Output := Output lg @ [''no hits to server'' @ [NL]]\<rparr>
         else lg\<lparr>Output := Output lg @
                [''busiest sections: '' @ Join (sort activeSections) '', '' @
                 '' ('' @ fmt_0_2f rate @ '' hits per second)'' @ [NL]]\<rparr>)"

section \<open>checkHighTraffic\<close>

text \<open>
  \<open>now\<close> is \<open>time.Now().Format(time.RFC3339)\<close> at the call; at most one of the two
  branches runs, so one reading of the clock is enough.
\<close>

definition checkHighTraffic :: "string \<Rightarrow> 'a logger_scheme \<Rightarrow> 'a logger_scheme" where
  "checkHighTraffic now lg =
     (let lg =
            (if totalTraffic lg > HighTrafficThreshold lg \<and> \<not> isHighTrafficTriggered lg
             then lg\<lparr>Output := Output lg @
                    [''WARNING: high traffic of '' @
                     fmt_0_2f (hitsPerSecond (totalTraffic lg) (HighTrafficInterval lg)) @
                     '' hits per second, triggered at '' @ now @ [NL]],
                   isHighTrafficTriggered := True\<rparr>
             else lg);
          lg =
            (if totalTraffic lg \<le> HighTrafficThreshold lg \<and> isHighTrafficTriggered lg
             then lg\<lparr>Output := Output lg @
                    [''WARNING: high traffic condition resolved at '' @ now @ [NL]],
                   isHighTrafficTriggered := False\<rparr>
             else lg)
      in lg\<lparr>totalTraffic := 0\<rparr>)"

section \<open>Regular expressions (package regexp)\<close>

text \<open>
  \<open>commonLogFormatPattern\<close> is compiled by \<open>regexp.MustCompile\<close>, and
  \<open>FindStringSubmatch\<close> returns the leftmost match, choosing among the matches that start
  there the one a backtracking search finds first (greedy operators try the longest
  repetition first, an alternation its left branch first). The model is that search: the
  pattern is a syntax tree, and \<open>run r st\<close> lists, in order of preference, the states in
  which a match of \<open>r\<close> started in \<open>st\<close> can end. A state holds the number of bytes consumed
  so far, the input that remains and the text of the capturing groups set so far.

  Go matches runes of UTF-8, the model bytes. For this pattern the two agree: every class
  that admits a byte above \<open>0x7F\<close> stands under \<open>+\<close> or \<open>*\<close> and every byte the pattern names
  is ASCII, so a match never ends inside a rune.
\<close>

definition DQ :: char where
  "DQ = CHR 0x22"

datatype regexp =
    EmptyMatch
  | BeginText
  | Lit char
  | Class "char \<Rightarrow> bool"
  | Cat regexp regexp
  | Alt regexp regexp
  | Quest regexp
  | Star regexp
  | Plus regexp
  | Repeat nat regexp
  | Group nat regexp

type_synonym captures = "nat \<Rightarrow> string option"

type_synonym mstate = "nat \<times> string \<times> captures"

definition remaining :: "mstate \<Rightarrow> string" where
  "remaining st = fst (snd st)"

definition captured :: "mstate \<Rightarrow> captures" where
  "captured st = snd (snd st)"

text \<open>
  Greedy repetition: one more iteration first, then stopping here. An iteration must
  consume input; \<open>n\<close> bounds the number of iterations and is the length of the input left.
\<close>

fun iterate :: "nat \<Rightarrow> (mstate \<Rightarrow> mstate list) \<Rightarrow> mstate \<Rightarrow> mstate list" where
  "iterate 0 f st = [st]"
| "iterate (Suc n) f st =
     concat (map (iterate n f)
       (filter (\<lambda>st'. length (remaining st') < length (remaining st)) (f st))) @ [st]"

primrec run :: "regexp \<Rightarrow> mstate \<Rightarrow> mstate list" where
  "run EmptyMatch st = [st]"
| "run BeginText st = (if fst st = 0 then [st] else [])"
| "run (Lit c) st =
     (case st of (p, s, g) \<Rightarrow>
        (case s of [] \<Rightarrow> [] | x # xs \<Rightarrow> if x = c then [(Suc p, xs, g)] else []))"
| "run (Class P) st =
     (case st of (p, s, g) \<Rightarrow>
        (case s of [] \<Rightarrow> [] | x # xs \<Rightarrow> if P x then [(Suc p, xs, g)] else []))"
| "run (Cat a b) st = concat (map (run b) (run a st))"
| "run (Alt a b) st = run a st @ run b st"
| "run (Quest a) st = run a st @ [st]"
| "run (Star a) st = iterate (length (remaining st)) (run a) st"
| "run (Plus a) st =
     concat (map (\<lambda>st'. iterate (length (remaining st')) (run a) st') (run a st))"
| "run (Repeat n a) st = ((\<lambda>sts. concat (map (run a) sts)) ^^ n) [st]"
| "run (Group n a) st =
     (case st of (p, s, g) \<Rightarrow>
        map (\<lambda>(p', s', g'). (p', s', g'(n \<mapsto> take (length s - length s') s))) (run a st))"

text \<open>A sequence of expressions, and a literal string.\<close>

fun Seq :: "regexp list \<Rightarrow> regexp" where
  "Seq [] = EmptyMatch"
| "Seq (r # rs) = Cat r (Seq rs)"

definition Str :: "string \<Rightarrow> regexp" where
  "Str s = Seq (map Lit s)"

text \<open>The number of capturing groups (\<open>NumSubexp\<close>).\<close>

fun numSubexp :: "regexp \<Rightarrow> nat" where
  "numSubexp (Cat a b) = max (numSubexp a) (numSubexp b)"
| "numSubexp (Alt a b) = max (numSubexp a) (numSubexp b)"
| "numSubexp (Quest a) = numSubexp a"
| "numSubexp (Star a) = numSubexp a"
| "numSubexp (Plus a) = numSubexp a"
| "numSubexp (Repeat n a) = numSubexp a"
| "numSubexp (Group n a) = max n (numSubexp a)"
| "numSubexp EmptyMatch = 0"
| "numSubexp BeginText = 0"
| "numSubexp (Lit c) = 0"
| "numSubexp (Class P) = 0"

text \<open>The leftmost match: the first start offset at which the search succeeds.\<close>

fun search :: "regexp \<Rightarrow> nat \<Rightarrow> string \<Rightarrow> (string \<times> mstate) option" where
  "search re p s =
     (case run re (p, s, Map.empty) of
        st # _ \<Rightarrow> Some (s, st)
      | [] \<Rightarrow> (case s of [] \<Rightarrow> None | _ # xs \<Rightarrow> search re (Suc p) xs))"

declare search.simps [simp del]

text \<open>
  \<open>FindStringSubmatch\<close>: \<open>None\<close> is the nil slice; otherwise element 0 is the whole match
  and element \<open>i\<close> the text of group \<open>i\<close>, empty for a group that took no part in the match.
\<close>

definition FindStringSubmatch :: "regexp \<Rightarrow> string \<Rightarrow> string list option" where
  "FindStringSubmatch re s =
     (case search re 0 s of
        None \<Rightarrow> None
      | Some (s0, st) \<Rightarrow>
          Some (take (length s0 - length (remaining st)) s0 #
                map (\<lambda>i. case captured st i of None \<Rightarrow> [] | Some t \<Rightarrow> t)
                  [1..<Suc (numSubexp re)]))"

subsection \<open>commonLogFormatPattern\<close>

definition isDigit :: "char \<Rightarrow> bool" where
  "isDigit c = (CHR ''0'' \<le> c \<and> c \<le> CHR ''9'')"

definition isUpper :: "char \<Rightarrow> bool" where
  "isUpper c = (CHR ''A'' \<le> c \<and> c \<le> CHR ''Z'')"

text \<open>The class \<open>\s\<close> of RE2 is \<open>[\t\n\f\r ]\<close>.\<close>

definition isSpace :: "char \<Rightarrow> bool" where
  "isSpace c = (c \<in> {CHR 0x09, CHR 0x0A, CHR 0x0C, CHR 0x0D, CHR '' ''})"

text \<open>\<open>[^/ "]\<close> and \<open>[^ "]\<close>.\<close>

definition sectionChar :: "char \<Rightarrow> bool" where
  "sectionChar c = (c \<noteq> CHR ''/'' \<and> c \<noteq> CHR '' '' \<and> c \<noteq> DQ)"

definition resourceChar :: "char \<Rightarrow> bool" where
  "resourceChar c = (c \<noteq> CHR '' '' \<and> c \<noteq> DQ)"

text \<open>
  \<^verbatim>\<open>^(\S+) \S+ (\S+) \[([^\]]+)\] "([A-Z]+) ((/?[^/ "]+)[^ "]*)? HTTP/[0-9.]+" ([0-9]{3}) ([0-9]+|-)\<close>
  in three parts: up to the space after the method, the optional resource (group 5) with
  the section (group 6) inside it, and the rest.
\<close>

definition patternHead :: "regexp list" where
  "patternHead =
     [BeginText,
      Group 1 (Plus (Class (\<lambda>c. \<not> isSpace c))),
      Lit CHR '' '', Plus (Class (\<lambda>c. \<not> isSpace c)),
      Lit CHR '' '', Group 2 (Plus (Class (\<lambda>c. \<not> isSpace c))),
      Lit CHR '' '', Lit CHR ''['', Group 3 (Plus (Class (\<lambda>c. c \<noteq> CHR '']''))), Lit CHR '']'',
      Lit CHR '' '', Lit DQ, Group 4 (Plus (Class isUpper)),
      Lit CHR '' '']"

definition patternSection :: regexp where
  "patternSection = Group 6 (Cat (Quest (Lit CHR ''/'')) (Plus (Class sectionChar)))"

definition patternResource :: regexp where
  "patternResource = Quest (Group 5 (Cat patternSection (Star (Class resourceChar))))"

definition patternTail :: "regexp list" where
  "patternTail =
     [Str '' HTTP/'', Plus (Class (\<lambda>c. isDigit c \<or> c = CHR ''.'')), Lit DQ,
      Lit CHR '' '', Group 7 (Repeat 3 (Class isDigit)),
      Lit CHR '' '', Group 8 (Alt (Plus (Class isDigit)) (Lit CHR ''-''))]"

definition commonLogFormatRegexp :: regexp where
  "commonLogFormatRegexp = Seq (patternHead @ patternResource # patternTail)"

section \<open>Errors\<close>

text \<open>
  The three kinds of \<open>error\<close> value that reach \<open>Run\<close>: the one \<open>fmt.Errorf\<close> builds, a
  \<open>*time.ParseError\<close> (fields \<open>Layout\<close>, \<open>Value\<close>, \<open>LayoutElem\<close>, \<open>ValueElem\<close>, \<open>Message\<close>)
  and a \<open>*strconv.NumError\<close> (fields \<open>Func\<close>, \<open>Num\<close>, \<open>Err\<close>).
\<close>

datatype error =
    ErrorString string
  | ParseError string string string string string
  | NumError string string error

definition ErrSyntax :: error where
  "ErrSyntax = ErrorString ''invalid syntax''"

definition ErrRange :: error where
  "ErrRange = ErrorString ''value out of range''"

definition BS :: char where
  "BS = CHR 0x5C"

definition SQ :: char where
  "SQ = CHR 0x27"

definition hexDigit :: "nat \<Rightarrow> char" where
  "hexDigit d = ''0123456789abcdef'' ! d"

text \<open>
  \<open>quote\<close> of package time: a byte below \<open>0x20\<close> or above \<open>0x7F\<close> is written \<open>\xHH\<close> (a rune
  of several bytes byte by byte), a quote or backslash is escaped, any other byte copied.
\<close>

definition quoteByte :: "char \<Rightarrow> string" where
  "quoteByte c =
     (let n = (of_char c :: nat)
      in if 128 \<le> n \<or> n < 32 then [BS, CHR ''x'', hexDigit (n div 16), hexDigit (n mod 16)]
         else if c = DQ \<or> c = BS then [BS, c]
         else [c])"

definition quote :: "string \<Rightarrow> string" where
  "quote s = [DQ] @ concat (map quoteByte s) @ [DQ]"

text \<open>
  \<open>strconv.Quote\<close> on ASCII text. Bytes above \<open>0x7F\<close> are copied, which is what Go does for
  printable runes; \<open>Atoi\<close> is only applied to digits and \<open>-\<close> here.
\<close>

definition strconvQuoteByte :: "char \<Rightarrow> string" where
  "strconvQuoteByte c =
     (let n = (of_char c :: nat)
      in if c = DQ \<or> c = BS then [BS, c]
         else if n = 7 then [BS, CHR ''a'']
         else if n = 8 then [BS, CHR ''b'']
         else if n = 12 then [BS, CHR ''f'']
         else if n = 10 then [BS, CHR ''n'']
         else if n = 13 then [BS, CHR ''r'']
         else if n = 9 then [BS, CHR ''t'']
         else if n = 11 then [BS, CHR ''v'']
         else if n < 32 \<or> n = 127 then [BS, CHR ''x'', hexDigit (n div 16), hexDigit (n mod 16)]
         else [c])"

definition strconvQuote :: "string \<Rightarrow> string" where
  "strconvQuote s = [DQ] @ concat (map strconvQuoteByte s) @ [DQ]"

text \<open>The method \<open>Error()\<close>, which \<open>%s\<close> prints.\<close>

fun Error :: "error \<Rightarrow> string" where
  "Error (ErrorString s) = s"
| "Error (ParseError layout val layoutElem valueElem message) =
     (if message = []
      then ''parsing time '' @ quote val @ '' as '' @ quote layout @
           '': cannot parse '' @ quote valueElem @ '' as '' @ quote layoutElem
      else ''parsing time '' @ quote val @ message)"
| "Error (NumError func num err) =
     ''strconv.'' @ func @ '': parsing '' @ strconvQuote num @ '': '' @ Error err"

section \<open>strconv.Atoi\<close>

definition digitVal :: "char \<Rightarrow> nat" where
  "digitVal c = of_char c - 48"

definition digitsValue :: "string \<Rightarrow> nat" where
  "digitsValue ds = fold (\<lambda>c n. n * 10 + digitVal c) ds 0"

text \<open>
  An optional sign and at least one decimal digit, within the 64-bit \<open>int\<close>; the fast path
  and \<open>ParseInt(s, 10, 0)\<close> give the same results, and every error carries the whole
  argument as \<open>Num\<close> and \<open>Atoi\<close> as \<open>Func\<close>.
\<close>

definition Atoi :: "string \<Rightarrow> error + int" where
  "Atoi s =
     (let (neg, ds) =
            (case s of
               [] \<Rightarrow> (False, s)
             | c # r \<Rightarrow> if c = CHR ''-'' \<or> c = CHR ''+'' then (c = CHR ''-'', r) else (False, s))
      in if ds = [] \<or> (\<exists>c \<in> set ds. \<not> isDigit c) then Inl (NumError ''Atoi'' s ErrSyntax)
         else let n = int (digitsValue ds)
              in if neg then (if 2 ^ 63 < n then Inl (NumError ''Atoi'' s ErrRange) else Inr (- n))
                 else (if 2 ^ 63 \<le> n then Inl (NumError ''Atoi'' s ErrRange) else Inr n))"

section \<open>time.Parse with the layout commonLogDateFormat\<close>

definition commonLogDateFormat :: string where
  "commonLogDateFormat = ''02/Jan/2006:15:04:05 -0700''"

text \<open>
  The \<open>time.Time\<close> that \<open>Parse\<close> returns, as the civil date and time it read and the offset
  of its zone in seconds east of UTC.
\<close>

record Time =
  year :: nat
  month :: nat
  day :: nat
  hour :: nat
  minute :: nat
  second :: nat
  nanosecond :: nat
  zoneOffset :: int

text \<open>
  \<open>time.Parse\<close> walks the layout element by element. For the fixed layout
  \<open>02/Jan/2006:15:04:05 -0700\<close> the walk is the chain of functions below, one per element
  (\<open>stdZeroDay\<close>, \<open>stdMonth\<close>, \<open>stdLongYear\<close>, \<open>stdHour\<close>, \<open>stdZeroMinute\<close>, \<open>stdZeroSecond\<close>,
  \<open>stdNumTZ\<close>), each skipping the literal text before its element first. They follow
  the time package of Go 1.21; \<open>a\<close> is the whole value, for the error.
\<close>

definition getnum :: "string \<Rightarrow> bool \<Rightarrow> (nat \<times> string) option" where
  "getnum s fixed =
     (case s of
        [] \<Rightarrow> None
      | c # r \<Rightarrow>
          if \<not> isDigit c then None
          else (case r of
                  [] \<Rightarrow> if fixed then None else Some (digitVal c, r)
                | d # r' \<Rightarrow>
                    if \<not> isDigit d then (if fixed then None else Some (digitVal c, r))
                    else Some (digitVal c * 10 + digitVal d, r')))"

definition shortMonthNames :: "string list" where
  "shortMonthNames =
     [''Jan'', ''Feb'', ''Mar'', ''Apr'', ''May'', ''Jun'',
      ''Jul'', ''Aug'', ''Sep'', ''Oct'', ''Nov'', ''Dec'']"

text \<open>\<open>c |= 'a' - 'A'\<close>: set the bit of value 32.\<close>

definition lowerBit :: "char \<Rightarrow> char" where
  "lowerBit c = (let n = (of_char c :: nat) in if even (n div 32) then char_of (n + 32) else c)"

definition matchFold :: "string \<Rightarrow> string \<Rightarrow> bool" where
  "matchFold s1 s2 =
     list_all2
       (\<lambda>c1 c2. c1 = c2 \<or>
          (lowerBit c1 = lowerBit c2 \<and> CHR ''a'' \<le> lowerBit c1 \<and> lowerBit c1 \<le> CHR ''z''))
       s1 s2"

fun lookup :: "string list \<Rightarrow> nat \<Rightarrow> string \<Rightarrow> (nat \<times> string) option" where
  "lookup [] i val = None"
| "lookup (v # tab) i val =
     (if length v \<le> length val \<and> matchFold (take (length v) val) v
      then Some (i, drop (length v) val)
      else lookup tab (Suc i) val)"

definition isLeap :: "nat \<Rightarrow> bool" where
  "isLeap y = (y mod 4 = 0 \<and> (y mod 100 \<noteq> 0 \<or> y mod 400 = 0))"

definition daysIn :: "nat \<Rightarrow> nat \<Rightarrow> nat" where
  "daysIn m y =
     (if m = 2 then (if isLeap y then 29 else 28)
      else if m \<in> {4, 6, 9, 11} then 30 else 31)"

definition parseEnd :: "string \<Rightarrow> Time \<Rightarrow> string \<Rightarrow> error + Time" where
  "parseEnd a t v =
     (if v \<noteq> [] then Inl (ParseError commonLogDateFormat a [] v ('': extra text: '' @ quote v))
      else if day t < 1 \<or> daysIn (month t) (year t) < day t
      then Inl (ParseError commonLogDateFormat a [] v '': day out of range'')
      else Inr t)"

definition parseZone :: "string \<Rightarrow> Time \<Rightarrow> string \<Rightarrow> error + Time" where
  "parseZone a t v0 =
     (if v0 \<noteq> [] \<and> hd v0 \<noteq> CHR '' ''
      then Inl (ParseError commonLogDateFormat a '' '' v0 [])
      else let hold = dropWhile (\<lambda>c. c = CHR '' '') v0
           in if length hold < 5 then Inl (ParseError commonLogDateFormat a ''-0700'' hold [])
              else let sign = hold ! 0; v = drop 5 hold;
                       h = getnum (take 2 (drop 1 hold)) True;
                       m = (if h = None then None else getnum (take 2 (drop 3 hold)) True);
                       hr = (case h of None \<Rightarrow> 0 | Some (n, _) \<Rightarrow> n);
                       mm = (case m of None \<Rightarrow> 0 | Some (n, _) \<Rightarrow> n);
                       off = int ((hr * 60 + mm) * 60)
                   in if 60 < mm
                      then Inl (ParseError commonLogDateFormat a ''-0700'' v
                                  '': time zone offset minute out of range'')
                      else if 24 < hr
                      then Inl (ParseError commonLogDateFormat a ''-0700'' v
                                  '': time zone offset hour out of range'')
                      else if m = None \<or> (sign \<noteq> CHR ''+'' \<and> sign \<noteq> CHR ''-'')
                      then Inl (ParseError commonLogDateFormat a ''-0700'' hold [])
                      else parseEnd a
                             (t\<lparr>zoneOffset := (if sign = CHR ''-'' then - off else off)\<rparr>) v)"

text \<open>
  Seconds, and a fractional second in the value although the layout has none: a period or
  comma and the digits after it are read as nanoseconds (the first nine digits count).
\<close>

definition parseSecond :: "string \<Rightarrow> Time \<Rightarrow> string \<Rightarrow> error + Time" where
  "parseSecond a t v0 =
     (case v0 of
        [] \<Rightarrow> Inl (ParseError commonLogDateFormat a '':'' v0 [])
      | c # hold \<Rightarrow>
          if c \<noteq> CHR '':'' then Inl (ParseError commonLogDateFormat a '':'' v0 [])
          else (case getnum hold True of
                  None \<Rightarrow> Inl (ParseError commonLogDateFormat a ''05'' hold [])
                | Some (sec, v) \<Rightarrow>
                    if 60 \<le> sec
                    then Inl (ParseError commonLogDateFormat a ''05'' v '': second out of range'')
                    else if 2 \<le> length v \<and> (v ! 0 = CHR ''.'' \<or> v ! 0 = CHR '','') \<and> isDigit (v ! 1)
                    then let ds = takeWhile isDigit (tl v);
                             ns = digitsValue (take 9 ds) * 10 ^ (9 - length (take 9 ds))
                         in parseZone a (t\<lparr>second := sec, nanosecond := ns\<rparr>)
                              (drop (Suc (length ds)) v)
                    else parseZone a (t\<lparr>second := sec\<rparr>) v))"

definition parseMinute :: "string \<Rightarrow> Time \<Rightarrow> string \<Rightarrow> error + Time" where
  "parseMinute a t v0 =
     (case v0 of
        [] \<Rightarrow> Inl (ParseError commonLogDateFormat a '':'' v0 [])
      | c # hold \<Rightarrow>
          if c \<noteq> CHR '':'' then Inl (ParseError commonLogDateFormat a '':'' v0 [])
          else (case getnum hold True of
                  None \<Rightarrow> Inl (ParseError commonLogDateFormat a ''04'' hold [])
                | Some (mi, v) \<Rightarrow>
                    if 60 \<le> mi
                    then Inl (ParseError commonLogDateFormat a ''04'' v '': minute out of range'')
                    else parseSecond a (t\<lparr>minute := mi\<rparr>) v))"

definition parseHour :: "string \<Rightarrow> Time \<Rightarrow> string \<Rightarrow> error + Time" where
  "parseHour a t v0 =
     (case v0 of
        [] \<Rightarrow> Inl (ParseError commonLogDateFormat a '':'' v0 [])
      | c # hold \<Rightarrow>
          if c \<noteq> CHR '':'' then Inl (ParseError commonLogDateFormat a '':'' v0 [])
          else (case getnum hold False of
                  None \<Rightarrow> Inl (ParseError commonLogDateFormat a ''15'' hold [])
                | Some (h, v) \<Rightarrow>
                    if 24 \<le> h
                    then Inl (ParseError commonLogDateFormat a ''15'' v '': hour out of range'')
                    else parseMinute a (t\<lparr>hour := h\<rparr>) v))"

definition parseYear :: "string \<Rightarrow> Time \<Rightarrow> string \<Rightarrow> error + Time" where
  "parseYear a t v0 =
     (case v0 of
        [] \<Rightarrow> Inl (ParseError commonLogDateFormat a ''/'' v0 [])
      | c # hold \<Rightarrow>
          if c \<noteq> CHR ''/'' then Inl (ParseError commonLogDateFormat a ''/'' v0 [])
          else if length hold < 4 \<or> (\<exists>d \<in> set (take 4 hold). \<not> isDigit d)
          then Inl (ParseError commonLogDateFormat a ''2006'' hold [])
          else parseHour a (t\<lparr>year := digitsValue (take 4 hold)\<rparr>) (drop 4 hold))"

definition parseMonth :: "string \<Rightarrow> Time \<Rightarrow> string \<Rightarrow> error + Time" where
  "parseMonth a t v0 =
     (case v0 of
        [] \<Rightarrow> Inl (ParseError commonLogDateFormat a ''/'' v0 [])
      | c # hold \<Rightarrow>
          if c \<noteq> CHR ''/'' then Inl (ParseError commonLogDateFormat a ''/'' v0 [])
          else (case lookup shortMonthNames 0 hold of
                  None \<Rightarrow> Inl (ParseError commonLogDateFormat a ''Jan'' hold [])
                | Some (i, v) \<Rightarrow> parseYear a (t\<lparr>month := Suc i\<rparr>) v))"

definition parseCommonLogDate :: "string \<Rightarrow> error + Time" where
  "parseCommonLogDate a =
     (case getnum a True of
        None \<Rightarrow> Inl (ParseError commonLogDateFormat a ''02'' a [])
      | Some (d, v) \<Rightarrow>
          parseMonth a
            \<lparr>year = 0, month = 0, day = d, hour = 0, minute = 0, second = 0,
             nanosecond = 0, zoneOffset = 0\<rparr> v)"

section \<open>parseLineEntry\<close>

record commonLogEntry =
  ClientIP :: string
  UserID :: string
  Time :: Time
  Method :: string
  Section :: string
  Resource :: string
  Status :: int
  Size :: int

text \<open>
  The result is Go's pair \<open>(*commonLogEntry, error)\<close>: the pointer is \<open>None\<close> for \<open>nil\<close>, and
  so is the error.
\<close>

definition parseLineEntry :: "string \<Rightarrow> commonLogEntry option \<times> error option" where
  "parseLineEntry line =
     (case FindStringSubmatch commonLogFormatRegexp line of
        None \<Rightarrow> (None, Some (ErrorString (''could not parse line '' @ [SQ] @ line @ [SQ])))
      | Some matches \<Rightarrow>
          (case parseCommonLogDate (matches ! 3) of
             Inl err \<Rightarrow> (None, Some err)
           | Inr time \<Rightarrow>
               (case Atoi (matches ! 7) of
                  Inl err \<Rightarrow> (None, Some err)
                | Inr status \<Rightarrow>
                    (case Atoi (matches ! 8) of
                       Inl err \<Rightarrow> (None, Some err)
                     | Inr sz \<Rightarrow>
                         (Some \<lparr>ClientIP = matches ! 1, UserID = matches ! 2, Time = time,
                                Method = matches ! 4, Section = matches ! 6,
                                Resource = matches ! 5, Status = status, Size = sz\<rparr>,
                          None)))))"

section \<open>Run\<close>

text \<open>
  \<open>bytes.TrimSpace\<close> on ASCII input: the white space of \<open>unicode.IsSpace\<close> below \<open>0x80\<close>.
  (It also trims the multi-byte spaces of Unicode, which are not modelled.)
\<close>

definition isAsciiSpace :: "char \<Rightarrow> bool" where
  "isAsciiSpace c = (c \<in> {CHR 0x09, CHR 0x0A, CHR 0x0B, CHR 0x0C, CHR 0x0D, CHR '' ''})"

definition TrimSpace :: "string \<Rightarrow> string" where
  "TrimSpace s = rev (dropWhile isAsciiSpace (rev (dropWhile isAsciiSpace s)))"

text \<open>
  A run either goes on or has panicked; a panic is not recovered anywhere, so it ends the
  process. The state a panic leaves is kept, to see what had been done before it.
\<close>

datatype 'a outcome = Running 'a | Panicked 'a

text \<open>
  The body of the \<open>for\<close> loop of \<open>Run\<close> after a line has been read: trim, parse, print the
  warning if there is an error, then (on both paths: nothing leaves the loop body after
  the warning) count the hit and increment \<open>sectionHits[entry.Section]\<close>. Reading
  \<open>entry.Section\<close> through a nil \<open>entry\<close> is Go's nil pointer dereference, a run-time panic.
\<close>

definition ingest :: "string \<Rightarrow> 'a logger_scheme \<Rightarrow> 'a logger_scheme outcome" where
  "ingest rawLine lg =
     (let line = TrimSpace rawLine;
          (entry, err) = parseLineEntry line;
          lg = (case err of
                  None \<Rightarrow> lg
                | Some e \<Rightarrow> lg\<lparr>Output := Output lg @ [''WARNING: '' @ Error e @ [NL]]\<rparr>);
          lg = lg\<lparr>totalTraffic := totalTraffic lg + 1\<rparr>
      in case entry of
           None \<Rightarrow> Panicked lg
         | Some e \<Rightarrow> Running (lg\<lparr>sectionHits := increment (sectionHits lg) (Section e)\<rparr>))"

subsection \<open>The watcher and the interleaving of the two goroutines\<close>

text \<open>
  \<open>time.Tick(d)\<close> returns the channel of a new ticker, or \<open>nil\<close> if \<open>d <= 0\<close>; a receive from a
  nil channel blocks for ever, so its \<open>case\<close> of the \<open>select\<close> in \<open>watch\<close> is never taken.
  \<open>Tick d\<close> is \<open>None\<close> for the nil channel.
\<close>

definition Tick :: "int \<Rightarrow> int option" where
  "Tick d = (if d \<le> 0 then None else Some d)"

text \<open>
  What can happen during \<open>Run\<close>: the reader loop reads a line, or one of the tickers of
  \<open>watch\<close> delivers a tick (with the time of day at that moment). When a tick comes is up
  to the clock, so every order of events is considered; each event is handled as a whole.
\<close>

datatype event = ReadLine string | UpdateTick | HighTrafficTick string

text \<open>The effect of an event; \<open>None\<close> when it cannot happen in this state.\<close>

fun fire :: "event \<Rightarrow> 'a logger_scheme \<Rightarrow> 'a logger_scheme outcome option" where
  "fire (ReadLine rawLine) lg = Some (ingest rawLine lg)"
| "fire UpdateTick lg =
     (case Tick (UpdateInterval lg) of
        None \<Rightarrow> None
      | Some d \<Rightarrow> Some (Running (printUpdate lg)))"
| "fire (HighTrafficTick now) lg =
     (case Tick (HighTrafficInterval lg) of
        None \<Rightarrow> None
      | Some d \<Rightarrow> Some (Running (checkHighTraffic now lg)))"

text \<open>A sequence of events from a state; nothing happens after a panic.\<close>

fun execute :: "event list \<Rightarrow> 'a logger_scheme \<Rightarrow> 'a logger_scheme outcome option" where
  "execute [] lg = Some (Running lg)"
| "execute (e # es) lg =
     (case fire e lg of
        None \<Rightarrow> None
      | Some (Panicked lg') \<Rightarrow> (if es = [] then Some (Panicked lg') else None)
      | Some (Running lg') \<Rightarrow> execute es lg')"

definition stateOf :: "'a outcome \<Rightarrow> 'a" where
  "stateOf out = (case out of Running lg \<Rightarrow> lg | Panicked lg \<Rightarrow> lg)"

section \<open>Notions used in the statements\<close>

text \<open>The two warnings of \<open>checkHighTraffic\<close>, as it formats them.\<close>

definition triggeredWarning :: "string \<Rightarrow> 'a logger_scheme \<Rightarrow> string" where
  "triggeredWarning now lg =
     ''WARNING: high traffic of '' @
     fmt_0_2f (hitsPerSecond (totalTraffic lg) (HighTrafficInterval lg)) @
     '' hits per second, triggered at '' @ now @ [NL]"

definition resolvedWarning :: "string \<Rightarrow> string" where
  "resolvedWarning now = ''WARNING: high traffic condition resolved at '' @ now @ [NL]"

text \<open>The largest of \<open>m\<close> and the hit counts of a snapshot.\<close>

definition maxOver :: "(string \<times> int) list \<Rightarrow> int \<Rightarrow> int" where
  "maxOver kvs m = Max (insert m (snd ` set kvs))"

text \<open>
  The configuration of the repository's tests (one-second intervals, threshold 10) with
  the state \<open>Run\<close> starts from: no hits counted, the flag clear, nothing written yet.
\<close>

definition exampleLogger :: logger where
  "exampleLogger =
     \<lparr>Output = [], UpdateInterval = Second, HighTrafficInterval = Second,
      HighTrafficThreshold = 10, sectionHits = [], totalTraffic = 0,
      isHighTrafficTriggered = False\<rparr>"

definition exampleNow :: string where
  "exampleNow = ''2018-03-04T10:20:30Z''"

text \<open>
  Log lines: a well-formed one, as the repository's tests write them; the same request
  answered without content, with \<open>-\<close> for the size; and a request for the root path.
\<close>

definition exampleLine :: string where
  "exampleLine =
     ''127.0.0.1 - frank [10/Oct/2000:13:55:36 -0700] '' @ [DQ] @
     ''GET /section-a/posts HTTP/1.0'' @ [DQ] @ '' 200 2326''"

definition dashSizeLine :: string where
  "dashSizeLine =
     ''127.0.0.1 - frank [10/Oct/2000:13:55:36 -0700] '' @ [DQ] @
     ''GET /section-a/posts HTTP/1.0'' @ [DQ] @ '' 304 -''"

definition rootPathLine :: string where
  "rootPathLine =
     ''127.0.0.1 - frank [10/Oct/2000:13:55:36 -0700] '' @ [DQ] @
     ''GET / HTTP/1.0'' @ [DQ] @ '' 200 2326''"

text \<open>
  The lines the three writers produce, told apart by how they begin: the status report of
  \<open>printUpdate\<close>, the two warnings of \<open>checkHighTraffic\<close>, and the warning of \<open>Run\<close> for a
  line that fails to parse.
\<close>

definition isStatusReport :: "string \<Rightarrow> bool" where
  "isStatusReport l = (l = ''no hits to server'' @ [NL] \<or> prefix ''busiest sections: '' l)"

definition isHighTrafficWarning :: "string \<Rightarrow> bool" where
  "isHighTrafficWarning l = prefix ''WARNING: high traffic '' l"

definition isParseWarning :: "string \<Rightarrow> bool" where
  "isParseWarning l =
     (prefix ''WARNING: could not parse line '' l \<or> prefix ''WARNING: parsing time '' l \<or>
      prefix ''WARNING: strconv.'' l)"

text \<open>
  The configurations of the repository's two tests: \<open>TestPrintingAlert\<close> leaves
  \<open>UpdateInterval\<close> zero (here with threshold 0, so that one hit is high traffic), and
  \<open>TestReportingSections\<close> leaves \<open>HighTrafficInterval\<close> zero.
\<close>

definition alertLogger :: logger where
  "alertLogger = exampleLogger\<lparr>UpdateInterval := 0, HighTrafficThreshold := 0\<rparr>"

definition reportLogger :: logger where
  "reportLogger = exampleLogger\<lparr>HighTrafficInterval := 0\<rparr>"

text \<open>
  The capturing groups an expression can set, and whether it contains \<open>^\<close>.
\<close>

fun groupsOf :: "regexp \<Rightarrow> nat set" where
  "groupsOf (Cat a b) = groupsOf a \<union> groupsOf b"
| "groupsOf (Alt a b) = groupsOf a \<union> groupsOf b"
| "groupsOf (Quest a) = groupsOf a"
| "groupsOf (Star a) = groupsOf a"
| "groupsOf (Plus a) = groupsOf a"
| "groupsOf (Repeat n a) = groupsOf a"
| "groupsOf (Group n a) = insert n (groupsOf a)"
| "groupsOf EmptyMatch = {}"
| "groupsOf BeginText = {}"
| "groupsOf (Lit c) = {}"
| "groupsOf (Class P) = {}"

fun anchored :: "regexp \<Rightarrow> bool" where
  "anchored (Cat a b) = (anchored a \<or> anchored b)"
| "anchored (Alt a b) = (anchored a \<or> anchored b)"
| "anchored (Quest a) = anchored a"
| "anchored (Star a) = anchored a"
| "anchored (Plus a) = anchored a"
| "anchored (Repeat n a) = anchored a"
| "anchored (Group n a) = anchored a"
| "anchored EmptyMatch = False"
| "anchored BeginText = True"
| "anchored (Lit c) = False"
| "anchored (Class P) = False"

text \<open>Two states of the search with the same input left.\<close>

definition sameRest :: "mstate \<Rightarrow> mstate \<Rightarrow> bool" where
  "sameRest a b = (remaining a = remaining b)"

text \<open>
  The first segment of a path with its leading slash, if it has one: \<open>/section-a\<close> for
  \<open>/section-a/posts\<close>, \<open>a\<close> for \<open>a/b\<close>.
\<close>

definition firstSegment :: "string \<Rightarrow> string" where
  "firstSegment r =
     (case r of
        [] \<Rightarrow> []
      | c # cs \<Rightarrow>
          if c = CHR ''/'' then c # takeWhile (\<lambda>x. x \<noteq> CHR ''/'') cs
          else takeWhile (\<lambda>x. x \<noteq> CHR ''/'') r)"

text \<open>
  Where the section can end in an input \<open>s\<close> that starts at the resource: after the slash
  \<open>/?\<close> took (\<open>slashLen\<close>: 0 or 1 bytes) come at most \<open>sectionRun s\<close> bytes of \<open>[^/ "]\<close>,
  and after \<open>k\<close> of them at most \<open>resourceRun s k\<close> bytes of \<open>[^ "]\<close>. \<open>candidate p s g k j\<close> is
  the state after the section took \<open>k\<close> bytes and the rest of the resource \<open>j\<close>.
\<close>

definition slashLen :: "string \<Rightarrow> nat" where
  "slashLen s = (case s of [] \<Rightarrow> 0 | c # t \<Rightarrow> if c = CHR ''/'' then 1 else 0)"

definition sectionRun :: "string \<Rightarrow> nat" where
  "sectionRun s = length (takeWhile sectionChar (drop (slashLen s) s))"

definition resourceRun :: "string \<Rightarrow> nat \<Rightarrow> nat" where
  "resourceRun s k = length (takeWhile resourceChar (drop (slashLen s + k) s))"

definition candidate :: "nat \<Rightarrow> string \<Rightarrow> captures \<Rightarrow> nat \<Rightarrow> nat \<Rightarrow> mstate" where
  "candidate p s g k j =
     (p + slashLen s + k + j, drop (slashLen s + k + j) s,
      g(6 \<mapsto> take (slashLen s + k) s, 5 \<mapsto> take (slashLen s + k + j) s))"

text \<open>The text of a group as \<open>FindStringSubmatch\<close> reports it.\<close>

definition groupText :: "mstate \<Rightarrow> nat \<Rightarrow> string" where
  "groupText st i = (case captured st i of None \<Rightarrow> [] | Some t \<Rightarrow> t)"

text \<open>
  The section as the specification words it: the first segment after the leading slash,
  without the slash.
\<close>

definition segmentAfterSlash :: "string \<Rightarrow> string" where
  "segmentAfterSlash r =
     takeWhile (\<lambda>x. x \<noteq> CHR ''/'')
       (case r of [] \<Rightarrow> [] | c # cs \<Rightarrow> if c = CHR ''/'' then cs else r)"

text \<open>
  The fields of \<open>logger\<close> that both goroutines can reach, and what a piece of code does to
  them and to \<open>sectionHitsLock\<close>, in program order. The lists below are read off the source:
  the loop body of \<open>Run\<close> (lines 64 to 67: \<open>totalTraffic++\<close>, \<open>Lock\<close>, the increment of
  \<open>sectionHits[entry.Section]\<close>, which panics before touching the map when \<open>entry\<close> is nil,
  \<open>Unlock\<close>), \<open>printUpdate\<close> (lines 132 to 135; after them it works on the map it took
  away) and \<open>checkHighTraffic\<close> (lines 170 to 196, with the short-circuit of \<open>&&\<close>).
\<close>

datatype shared = SectionHits | TotalTraffic | IsHighTrafficTriggered

datatype access = Lock | Unlock | Read shared | Write shared

definition ingestAccesses :: "commonLogEntry option \<Rightarrow> access list" where
  "ingestAccesses entry =
     [Read TotalTraffic, Write TotalTraffic, Lock] @
     (case entry of
        None \<Rightarrow> []
      | Some e \<Rightarrow> [Read SectionHits, Write SectionHits, Unlock])"

definition printUpdateAccesses :: "access list" where
  "printUpdateAccesses = [Lock, Read SectionHits, Write SectionHits, Unlock]"

definition checkHighTrafficAccesses :: "'a logger_scheme \<Rightarrow> access list" where
  "checkHighTrafficAccesses lg =
     [Read TotalTraffic] @
     (if totalTraffic lg > HighTrafficThreshold lg then [Read IsHighTrafficTriggered] else []) @
     (if totalTraffic lg > HighTrafficThreshold lg \<and> \<not> isHighTrafficTriggered lg
      then [Read TotalTraffic, Write IsHighTrafficTriggered] else []) @
     [Read TotalTraffic] @
     (if totalTraffic lg \<le> HighTrafficThreshold lg then [Read IsHighTrafficTriggered] else []) @
     (if totalTraffic lg \<le> HighTrafficThreshold lg \<and> isHighTrafficTriggered lg
      then [Write IsHighTrafficTriggered] else []) @
     [Write TotalTraffic]"

text \<open>Every read and write happens while the lock is held.\<close>

fun guardedFrom :: "bool \<Rightarrow> access list \<Rightarrow> bool" where
  "guardedFrom held [] = True"
| "guardedFrom held (Lock # rest) = guardedFrom True rest"
| "guardedFrom held (Unlock # rest) = guardedFrom False rest"
| "guardedFrom held (Read v # rest) = (held \<and> guardedFrom held rest)"
| "guardedFrom held (Write v # rest) = (held \<and> guardedFrom held rest)"

definition guarded :: "access list \<Rightarrow> bool" where
  "guarded accesses = guardedFrom False accesses"

chapter \<open>Properties\<close>

section \<open>Evaluating the float64 model\<close>

lemma bit_length_0: "bit_length 0 = 0"
  by (simp add: bit_length.simps)

lemma bit_length_Suc_0: "bit_length (Suc 0) = Suc 0"
  by (simp add: bit_length.simps [of "Suc 0"] bit_length_0)

lemma bit_length_numeral: "bit_length (numeral k) = Suc (bit_length (numeral k div 2))"
  by (subst bit_length.simps) simp

lemmas float64_eval =
  round_float64_def binade_def pow2_def round_half_even_def Let_def
  bit_length_0 bit_length_Suc_0 bit_length_numeral

lemma round_float64_1: "round_float64 1 = 1"
  by (simp add: float64_eval)

lemma round_float64_2: "round_float64 2 = 2"
  by (simp add: float64_eval)

lemma round_float64_11: "round_float64 11 = 11"
  by (simp add: float64_eval)

lemma round_float64_1e9: "round_float64 1000000000 = 1000000000"
  by (simp add: float64_eval)

lemma round_float64_2e9: "round_float64 2000000000 = 2000000000"
  by (simp add: float64_eval)

lemma round_float64_11e9: "round_float64 11000000000 = 11000000000"
  by (simp add: float64_eval)

lemmas fixed2_eval = fixed2_def round_half_even_def Let_def Itoa_nat.simps digit_char_def

lemma rate_1_00: "fmt_0_2f (hitsPerSecond 1 Second) = ''1.00''"
  by (simp add: hitsPerSecond_def Second_def round_float64_1 round_float64_1e9
      float64_div_def fixed2_eval)

lemma rate_2_00: "fmt_0_2f (hitsPerSecond 2 Second) = ''2.00''"
  by (simp add: hitsPerSecond_def Second_def round_float64_2 round_float64_1e9
      round_float64_2e9 float64_div_def fixed2_eval)

lemma rate_11_00: "fmt_0_2f (hitsPerSecond 11 Second) = ''11.00''"
  by (simp add: hitsPerSecond_def Second_def round_float64_11 round_float64_1e9
      round_float64_11e9 float64_div_def fixed2_eval)

lemma bit_length_le: "m < 2 ^ k \<Longrightarrow> bit_length m \<le> k"
proof (induction k arbitrary: m)
  case 0
  then show ?case by (simp add: bit_length.simps [of 0])
next
  case (Suc k)
  from Suc.prems have "m div 2 < 2 ^ k" by simp
  from Suc.IH [OF this] show ?case by (simp add: bit_length.simps [of m])
qed

lemma round_half_even_of_int: "round_half_even (of_int k) = k"
  by (simp add: round_half_even_def)

text \<open>An integer below \<open>2^53\<close> is a double.\<close>

lemma round_float64_of_int:
  assumes "0 < n" and "n < 2 ^ 53"
  shows "round_float64 (of_int n) = of_int n"
proof -
  define N where "N = 53 - bit_length (nat n)"
  have "nat n < 2 ^ 53" using assms by (simp add: nat_less_iff)
  then have b: "bit_length (nat n) \<le> 53" by (rule bit_length_le)
  have b1: "1 \<le> bit_length (nat n)" using assms(1) by (simp add: bit_length.simps [of "nat n"])
  have e: "binade \<bar>of_int n\<bar> - 52 = - int N"
    using assms(1) b b1 by (simp add: binade_def N_def)
  have u: "pow2 (- int N) = 1 / 2 ^ N"
    by (simp add: pow2_def)
  have "\<bar>rat_of_int n\<bar> / (1 / 2 ^ N) = of_int (n * 2 ^ N)" using assms(1) by simp
  then have r: "round_half_even (\<bar>rat_of_int n\<bar> / (1 / 2 ^ N)) = n * 2 ^ N"
    by (simp only: round_half_even_of_int)
  show ?thesis
    using assms(1) unfolding round_float64_def Let_def e u r by simp
qed

lemma hitsPerSecond_exact:
  assumes "0 < hits" and "hits * Second < 2 ^ 53" and "0 < interval" and "interval < 2 ^ 53"
  shows "hitsPerSecond hits interval =
           Finite (round_float64 (of_int (hits * Second) / of_int interval))"
proof -
  have s: "0 < Second" "Second < 2 ^ 53" by (simp_all add: Second_def)
  have "hits \<le> hits * Second" using assms(1) s(1) by (simp add: Second_def)
  then have h: "hits < 2 ^ 53" using assms(2) by linarith
  have p: "0 < hits * Second" using assms(1) s(1) by simp
  have 1: "round_float64 (of_int hits) = of_int hits" using assms(1) h by (rule round_float64_of_int)
  have 2: "round_float64 (of_int Second) = of_int Second" using s by (rule round_float64_of_int)
  have 3: "round_float64 (of_int hits * of_int Second) = of_int (hits * Second)"
    using round_float64_of_int [OF p assms(2)] by simp
  have 4: "round_float64 (of_int interval) = of_int interval"
    using assms(3,4) by (rule round_float64_of_int)
  have 5: "rat_of_int (hits * Second) \<noteq> 0" "rat_of_int interval \<noteq> 0"
    using assms(1,3) s(1) by simp_all
  show ?thesis
    unfolding hitsPerSecond_def 1 2 3 4 float64_div_def by (simp only: 5 if_False)
qed

section \<open>The high-traffic flag\<close>

lemma checkHighTraffic_trigger:
  assumes "totalTraffic lg > HighTrafficThreshold lg" and "\<not> isHighTrafficTriggered lg"
  shows "Output (checkHighTraffic now lg) = Output lg @ [triggeredWarning now lg]"
    and "isHighTrafficTriggered (checkHighTraffic now lg)"
  using assms by (simp_all add: checkHighTraffic_def triggeredWarning_def Let_def)

lemma checkHighTraffic_resolve:
  assumes "totalTraffic lg \<le> HighTrafficThreshold lg" and "isHighTrafficTriggered lg"
  shows "Output (checkHighTraffic now lg) = Output lg @ [resolvedWarning now]"
    and "\<not> isHighTrafficTriggered (checkHighTraffic now lg)"
  using assms by (simp_all add: checkHighTraffic_def resolvedWarning_def Let_def)

lemma checkHighTraffic_stay:
  assumes "(totalTraffic lg > HighTrafficThreshold lg) = isHighTrafficTriggered lg"
  shows "Output (checkHighTraffic now lg) = Output lg"
    and "isHighTrafficTriggered (checkHighTraffic now lg) = isHighTrafficTriggered lg"
  using assms by (auto simp add: checkHighTraffic_def Let_def)

lemma checkHighTraffic_totalTraffic: "totalTraffic (checkHighTraffic now lg) = 0"
  by (simp add: checkHighTraffic_def Let_def)

text \<open>
  Claim C5. One call to \<open>checkHighTraffic\<close> is one step of the two-state machine of the
  flag: above the threshold with the flag clear it writes exactly the "triggered" warning
  and sets the flag; at or below the threshold with the flag set it writes exactly the
  "resolved" warning and clears the flag; otherwise (the state does not change, as when the
  total equals the threshold and the flag is clear) it writes nothing and keeps the flag.
\<close>

theorem checkHighTraffic_state_machine:
  "(totalTraffic lg > HighTrafficThreshold lg \<and> \<not> isHighTrafficTriggered lg \<longrightarrow>
      Output (checkHighTraffic now lg) = Output lg @ [triggeredWarning now lg] \<and>
      isHighTrafficTriggered (checkHighTraffic now lg)) \<and>
   (totalTraffic lg \<le> HighTrafficThreshold lg \<and> isHighTrafficTriggered lg \<longrightarrow>
      Output (checkHighTraffic now lg) = Output lg @ [resolvedWarning now] \<and>
      \<not> isHighTrafficTriggered (checkHighTraffic now lg)) \<and>
   ((totalTraffic lg > HighTrafficThreshold lg) = isHighTrafficTriggered lg \<longrightarrow>
      Output (checkHighTraffic now lg) = Output lg \<and>
      isHighTrafficTriggered (checkHighTraffic now lg) = isHighTrafficTriggered lg) \<and>
   (totalTraffic lg = HighTrafficThreshold lg \<and> \<not> isHighTrafficTriggered lg \<longrightarrow>
      Output (checkHighTraffic now lg) = Output lg \<and>
      \<not> isHighTrafficTriggered (checkHighTraffic now lg))"
proof -
  have same: "totalTraffic lg = HighTrafficThreshold lg \<and> \<not> isHighTrafficTriggered lg \<Longrightarrow>
      (totalTraffic lg > HighTrafficThreshold lg) = isHighTrafficTriggered lg"
    by simp
  show ?thesis
    using checkHighTraffic_trigger [of lg now] checkHighTraffic_resolve [of lg now]
      checkHighTraffic_stay [of lg now] same
    by blast
qed

text \<open>
  The four cases at the tests' configuration (threshold 10, one-second window): 11 hits
  with the flag clear, 10 hits with the flag set, 11 hits with the flag set, and exactly
  10 hits with the flag clear.
\<close>

theorem checkHighTraffic_state_machine_witness:
  "Output (checkHighTraffic exampleNow (exampleLogger\<lparr>totalTraffic := 11\<rparr>)) =
     [''WARNING: high traffic of 11.00 hits per second, triggered at 2018-03-04T10:20:30Z'' @ [NL]] \<and>
   isHighTrafficTriggered (checkHighTraffic exampleNow (exampleLogger\<lparr>totalTraffic := 11\<rparr>)) \<and>
   Output (checkHighTraffic exampleNow
      (exampleLogger\<lparr>totalTraffic := 10, isHighTrafficTriggered := True\<rparr>)) =
     [''WARNING: high traffic condition resolved at 2018-03-04T10:20:30Z'' @ [NL]] \<and>
   \<not> isHighTrafficTriggered (checkHighTraffic exampleNow
      (exampleLogger\<lparr>totalTraffic := 10, isHighTrafficTriggered := True\<rparr>)) \<and>
   Output (checkHighTraffic exampleNow
      (exampleLogger\<lparr>totalTraffic := 11, isHighTrafficTriggered := True\<rparr>)) = [] \<and>
   isHighTrafficTriggered (checkHighTraffic exampleNow
      (exampleLogger\<lparr>totalTraffic := 11, isHighTrafficTriggered := True\<rparr>)) \<and>
   Output (checkHighTraffic exampleNow (exampleLogger\<lparr>totalTraffic := 10\<rparr>)) = [] \<and>
   \<not> isHighTrafficTriggered (checkHighTraffic exampleNow (exampleLogger\<lparr>totalTraffic := 10\<rparr>))"
  using
    checkHighTraffic_state_machine [of "exampleLogger\<lparr>totalTraffic := 11\<rparr>" exampleNow]
    checkHighTraffic_state_machine
      [of "exampleLogger\<lparr>totalTraffic := 10, isHighTrafficTriggered := True\<rparr>" exampleNow]
    checkHighTraffic_state_machine
      [of "exampleLogger\<lparr>totalTraffic := 11, isHighTrafficTriggered := True\<rparr>" exampleNow]
    checkHighTraffic_state_machine [of "exampleLogger\<lparr>totalTraffic := 10\<rparr>" exampleNow]
  by (simp add: exampleLogger_def exampleNow_def triggeredWarning_def resolvedWarning_def
      rate_11_00)

section \<open>The status report\<close>

lemma maxOver_Nil: "maxOver [] m = m"
  by (simp add: maxOver_def)

lemma maxOver_Cons: "maxOver ((k, v) # rest) m = maxOver rest (max m v)"
proof -
  have "Max (insert m (insert v (snd ` set rest))) = Max (insert (max m v) (snd ` set rest))"
    by (cases "snd ` set rest = {}") (simp_all add: max.assoc)
  then show ?thesis by (simp add: maxOver_def)
qed

lemma maxOver_ge: "m \<le> maxOver kvs m"
  by (simp add: maxOver_def)

lemma maxOver_positive:
  assumes "kvs \<noteq> []" and "0 < Max (snd ` set kvs)"
  shows "maxOver kvs 0 = Max (snd ` set kvs)"
  using assms by (simp add: maxOver_def max_def)

lemma maxOver_all_zero:
  assumes "\<forall>kv \<in> set kvs. snd kv = 0"
  shows "maxOver kvs 0 = 0"
proof -
  have h: "insert 0 (snd ` set kvs) = {0}" using assms by auto
  show ?thesis unfolding maxOver_def h by simp
qed

lemma scanSections_step:
  "scanSections ((k, v) # rest) m acc =
     scanSections rest (max m v) (if m < v then [k] else if m = v then acc @ [k] else acc)"
  by (auto simp: max_def)

text \<open>The loop leaves the maximum in \<open>maxHits\<close> ...\<close>

lemma scanSections_max: "fst (scanSections kvs m acc) = maxOver kvs m"
proof (induction kvs arbitrary: m acc)
  case Nil
  show ?case by (simp add: maxOver_Nil)
next
  case (Cons kv rest)
  obtain k v where kv: "kv = (k, v)" by (cases kv)
  show ?case unfolding kv scanSections_step maxOver_Cons by (rule Cons.IH)
qed

text \<open>... and in \<open>activeSections\<close> the sections that reach it, in the order visited.\<close>

lemma scanSections_active:
  "snd (scanSections kvs m acc) =
     (if maxOver kvs m = m then acc else []) @
     map fst (filter (\<lambda>kv. snd kv = maxOver kvs m) kvs)"
proof (induction kvs arbitrary: m acc)
  case Nil
  show ?case by (simp add: maxOver_Nil)
next
  case (Cons kv rest)
  obtain k v where kv: "kv = (k, v)" by (cases kv)
  have ge: "max m v \<le> maxOver rest (max m v)" by (rule maxOver_ge)
  show ?case
    unfolding kv scanSections_step maxOver_Cons Cons.IH
    using ge by (auto simp: max_def)
qed

lemma printUpdate_sectionHits: "sectionHits (printUpdate lg) = []"
  by (simp add: printUpdate_def Let_def split: prod.splits)

lemma printUpdate_Output:
  "Output (printUpdate lg) = Output lg @
     [if maxOver (sectionHits lg) 0 = 0 then ''no hits to server'' @ [NL]
      else ''busiest sections: '' @
           Join (sort (map fst (filter (\<lambda>kv. snd kv = maxOver (sectionHits lg) 0) (sectionHits lg)))) '', '' @
           '' ('' @ fmt_0_2f (hitsPerSecond (maxOver (sectionHits lg) 0) (UpdateInterval lg)) @
           '' hits per second)'' @ [NL]]"
proof -
  obtain mx act where sc: "scanSections (sectionHits lg) 0 [] = (mx, act)"
    by (cases "scanSections (sectionHits lg) 0 []")
  have mx: "mx = maxOver (sectionHits lg) 0"
    using scanSections_max [of "sectionHits lg" 0 "[]"] sc by simp
  have act: "act = map fst (filter (\<lambda>kv. snd kv = maxOver (sectionHits lg) 0) (sectionHits lg))"
    using scanSections_active [of "sectionHits lg" 0 "[]"] sc by simp
  show ?thesis
    unfolding printUpdate_def Let_def sc using mx act by simp
qed

lemma tied_sorted:
  assumes "distinct (map fst kvs)"
  shows "sort (map fst (filter (\<lambda>kv. snd kv = mx) kvs)) =
         sorted_list_of_set {k. (k, mx) \<in> set kvs}"
proof -
  have d: "distinct (map fst (filter (\<lambda>kv. snd kv = mx) kvs))"
    using assms by (rule distinct_map_filter)
  have s: "set (map fst (filter (\<lambda>kv. snd kv = mx) kvs)) = {k. (k, mx) \<in> set kvs}"
    by force
  show ?thesis
    using d s sorted_list_of_set_sort_remdups [of "map fst (filter (\<lambda>kv. snd kv = mx) kvs)"]
    by (simp add: distinct_remdups_id)
qed

text \<open>
  Claim C7. For a non-empty snapshot whose largest hit count is positive, \<open>printUpdate\<close>
  writes one line: it names every section whose count equals the maximum (all the tied
  ones), in ascending lexicographic order, and gives the rate
  \<open>max * 1 second / UpdateInterval\<close> with two decimals; with a one-second interval and a
  maximum of 2 the rate reads \<open>2.00\<close>. The rate is computed in \<open>float64\<close>: as long as the
  interval and \<open>max * 10^9\<close> stay below \<open>2^53\<close> it is the double nearest to the exact
  quotient. (The snapshot is a map: its keys are distinct.)
\<close>

theorem printUpdate_busiest:
  assumes "sectionHits lg \<noteq> []" and "0 < Max (snd ` set (sectionHits lg))"
    and "distinct (map fst (sectionHits lg))"
  shows "Output (printUpdate lg) = Output lg @
           [''busiest sections: '' @
            Join (sorted_list_of_set
                    {s. (s, Max (snd ` set (sectionHits lg))) \<in> set (sectionHits lg)}) '', '' @
            '' ('' @
            fmt_0_2f (hitsPerSecond (Max (snd ` set (sectionHits lg))) (UpdateInterval lg)) @
            '' hits per second)'' @ [NL]] \<and>
         (UpdateInterval lg = Second \<and> Max (snd ` set (sectionHits lg)) = 2 \<longrightarrow>
            fmt_0_2f (hitsPerSecond (Max (snd ` set (sectionHits lg))) (UpdateInterval lg)) = ''2.00'') \<and>
         (0 < UpdateInterval lg \<and> UpdateInterval lg < 2 ^ 53 \<and>
          Max (snd ` set (sectionHits lg)) * Second < 2 ^ 53 \<longrightarrow>
            hitsPerSecond (Max (snd ` set (sectionHits lg))) (UpdateInterval lg) =
              Finite (round_float64 (of_int (Max (snd ` set (sectionHits lg)) * Second) /
                                     of_int (UpdateInterval lg))))"
proof (intro conjI)
  have m: "maxOver (sectionHits lg) 0 = Max (snd ` set (sectionHits lg))"
    using assms(1,2) by (rule maxOver_positive)
  have nz: "Max (snd ` set (sectionHits lg)) \<noteq> 0"
    using assms(2) by simp
  show "Output (printUpdate lg) = Output lg @
           [''busiest sections: '' @
            Join (sorted_list_of_set
                    {s. (s, Max (snd ` set (sectionHits lg))) \<in> set (sectionHits lg)}) '', '' @
            '' ('' @
            fmt_0_2f (hitsPerSecond (Max (snd ` set (sectionHits lg))) (UpdateInterval lg)) @
            '' hits per second)'' @ [NL]]"
    unfolding printUpdate_Output m tied_sorted [OF assms(3)] if_not_P [OF nz] ..
next
  show "UpdateInterval lg = Second \<and> Max (snd ` set (sectionHits lg)) = 2 \<longrightarrow>
            fmt_0_2f (hitsPerSecond (Max (snd ` set (sectionHits lg))) (UpdateInterval lg)) = ''2.00''"
  proof
    assume a: "UpdateInterval lg = Second \<and> Max (snd ` set (sectionHits lg)) = 2"
    show "fmt_0_2f (hitsPerSecond (Max (snd ` set (sectionHits lg))) (UpdateInterval lg)) = ''2.00''"
      using a rate_2_00 by (simp only:)
  qed
next
  show "0 < UpdateInterval lg \<and> UpdateInterval lg < 2 ^ 53 \<and>
          Max (snd ` set (sectionHits lg)) * Second < 2 ^ 53 \<longrightarrow>
            hitsPerSecond (Max (snd ` set (sectionHits lg))) (UpdateInterval lg) =
              Finite (round_float64 (of_int (Max (snd ` set (sectionHits lg)) * Second) /
                                     of_int (UpdateInterval lg)))"
  proof
    assume a: "0 < UpdateInterval lg \<and> UpdateInterval lg < 2 ^ 53 \<and>
          Max (snd ` set (sectionHits lg)) * Second < 2 ^ 53"
    from a have 1: "Max (snd ` set (sectionHits lg)) * Second < 2 ^ 53" by (elim conjE)
    from a have 2: "0 < UpdateInterval lg" by (elim conjE)
    from a have 3: "UpdateInterval lg < 2 ^ 53" by (elim conjE)
    from assms(2) 1 2 3
    show "hitsPerSecond (Max (snd ` set (sectionHits lg))) (UpdateInterval lg) =
              Finite (round_float64 (of_int (Max (snd ` set (sectionHits lg)) * Second) /
                                     of_int (UpdateInterval lg)))"
      by (rule hitsPerSecond_exact)
  qed
qed

text \<open>
  The two windows of the repository's test \<open>TestReportingSections\<close>: hits
  \<open>{/section-a: 2, /section-b: 1}\<close>, then one hit each for three sections.
\<close>

theorem printUpdate_busiest_witness:
  "Output (printUpdate (exampleLogger\<lparr>sectionHits := [(''/section-b'', 1), (''/section-a'', 2)]\<rparr>))
     = [''busiest sections: /section-a (2.00 hits per second)'' @ [NL]] \<and>
   Output (printUpdate (exampleLogger\<lparr>sectionHits :=
       [(''/section-c'', 1), (''/section-a'', 1), (''/section-b'', 1)]\<rparr>))
     = [''busiest sections: /section-a, /section-b, /section-c (1.00 hits per second)'' @ [NL]]"
proof -
  let ?l1 = "exampleLogger\<lparr>sectionHits := [(''/section-b'', 1), (''/section-a'', 2)]\<rparr>"
  let ?l2 = "exampleLogger\<lparr>sectionHits :=
       [(''/section-c'', 1), (''/section-a'', 1), (''/section-b'', 1)]\<rparr>"
  have o: "sorted_list_of_set {''/section-c'', ''/section-a'', ''/section-b''} =
      [''/section-a'', ''/section-b'', ''/section-c'']"
    by code_simp
  show ?thesis
    using printUpdate_busiest [of ?l1] printUpdate_busiest [of ?l2]
    by (simp add: exampleLogger_def Collect_disj_eq insert_commute rate_1_00 rate_2_00 o)
qed

text \<open>
  Claim C9. After any call to \<open>printUpdate\<close> the counters are the empty map, and a second
  call with nothing ingested in between writes exactly \<open>no hits to server\<close>; a report
  over a snapshot that is empty or holds only zero counts writes that line and leaves the
  counters empty.
\<close>

theorem printUpdate_reset_idempotent:
  "sectionHits (printUpdate lg) = [] \<and>
   Output (printUpdate (printUpdate lg)) =
     Output (printUpdate lg) @ [''no hits to server'' @ [NL]] \<and>
   sectionHits (printUpdate (printUpdate lg)) = [] \<and>
   ((\<forall>kv \<in> set (sectionHits lg). snd kv = 0) \<longrightarrow>
      Output (printUpdate lg) = Output lg @ [''no hits to server'' @ [NL]] \<and>
      sectionHits (printUpdate lg) = [])"
proof -
  have z: "(\<forall>kv \<in> set (sectionHits l). snd kv = 0) \<Longrightarrow>
      Output (printUpdate l) = Output l @ [''no hits to server'' @ [NL]]" for l :: "'a logger_scheme"
    by (simp add: printUpdate_Output maxOver_all_zero)
  have e: "\<forall>kv \<in> set (sectionHits (printUpdate lg)). snd kv = 0"
    by (simp add: printUpdate_sectionHits)
  show ?thesis
    using z [of lg] z [OF e] by (simp add: printUpdate_sectionHits)
qed

theorem printUpdate_reset_idempotent_witness:
  "sectionHits (printUpdate (exampleLogger\<lparr>sectionHits := [(''/section-a'', 2)]\<rparr>)) = [] \<and>
   Output (printUpdate (printUpdate (exampleLogger\<lparr>sectionHits := [(''/section-a'', 2)]\<rparr>))) =
     [''busiest sections: /section-a (2.00 hits per second)'' @ [NL], ''no hits to server'' @ [NL]] \<and>
   Output (printUpdate (exampleLogger\<lparr>sectionHits := [(''/section-a'', 0)]\<rparr>)) =
     [''no hits to server'' @ [NL]] \<and>
   Output (printUpdate exampleLogger) = [''no hits to server'' @ [NL]]"
proof -
  have a: "Output (printUpdate (exampleLogger\<lparr>sectionHits := [(''/section-a'', 2)]\<rparr>)) =
      [''busiest sections: /section-a (2.00 hits per second)'' @ [NL]]"
    by (simp add: printUpdate_Output maxOver_def exampleLogger_def rate_2_00)
  show ?thesis
    using printUpdate_reset_idempotent [of "exampleLogger\<lparr>sectionHits := [(''/section-a'', 2)]\<rparr>"]
      printUpdate_reset_idempotent [of "exampleLogger\<lparr>sectionHits := [(''/section-a'', 0)]\<rparr>"]
      printUpdate_reset_idempotent [of exampleLogger]
    by (simp add: a) (simp add: exampleLogger_def)
qed

section \<open>Parsing and ingesting single lines\<close>

lemma parseLineEntry_exampleLine:
  "parseLineEntry exampleLine =
     (Some \<lparr>ClientIP = ''127.0.0.1'', UserID = ''frank'',
             Time = \<lparr>year = 2000, month = 10, day = 10, hour = 13, minute = 55,
                      second = 36, nanosecond = 0, zoneOffset = - 25200\<rparr>,
             Method = ''GET'', Section = ''/section-a'', Resource = ''/section-a/posts'',
             Status = 200, Size = 2326\<rparr>,
      None)"
  by code_simp

lemma parseLineEntry_dashSizeLine:
  "parseLineEntry dashSizeLine = (None, Some (NumError ''Atoi'' ''-'' ErrSyntax))"
  by code_simp

lemma parseLineEntry_rootPathLine:
  "parseLineEntry rootPathLine =
     (None, Some (ErrorString (''could not parse line '' @ [SQ] @ rootPathLine @ [SQ])))"
  by code_simp

lemma match_dashSizeLine:
  "FindStringSubmatch commonLogFormatRegexp dashSizeLine =
     Some [dashSizeLine, ''127.0.0.1'', ''frank'', ''10/Oct/2000:13:55:36 -0700'', ''GET'',
           ''/section-a/posts'', ''/section-a'', ''304'', ''-'']"
  by code_simp

lemma garbage_no_match: "FindStringSubmatch commonLogFormatRegexp ''garbage'' = None"
  by code_simp

lemma trim_garbage: "TrimSpace (''garbage'' @ [NL]) = ''garbage''"
  by code_simp


lemma trim_exampleLine: "TrimSpace (exampleLine @ [NL]) = exampleLine"
  by code_simp

lemma Atoi_dash: "Atoi ''-'' = Inl (NumError ''Atoi'' ''-'' ErrSyntax)"
  by (simp add: Atoi_def)

lemma Error_Atoi_dash:
  "Error (NumError ''Atoi'' ''-'' ErrSyntax) =
     ''strconv.Atoi: parsing '' @ [DQ] @ ''-'' @ [DQ] @ '': invalid syntax''"
  by code_simp

lemma parseLineEntry_no_match:
  assumes "FindStringSubmatch commonLogFormatRegexp line = None"
  shows "parseLineEntry line =
           (None, Some (ErrorString (''could not parse line '' @ [SQ] @ line @ [SQ])))"
  using assms by (simp add: parseLineEntry_def)

text \<open>An error comes with a nil entry.\<close>

lemma parseLineEntry_error_nil:
  assumes "snd (parseLineEntry line) = Some err"
  shows "fst (parseLineEntry line) = None"
  using assms by (auto simp: parseLineEntry_def split: option.splits sum.splits)

lemma parseLineEntry_subfield:
  assumes "FindStringSubmatch commonLogFormatRegexp line = Some ms"
    and "snd (parseLineEntry line) = Some err"
  shows "parseCommonLogDate (ms ! 3) = Inl err \<or> Atoi (ms ! 7) = Inl err \<or> Atoi (ms ! 8) = Inl err"
  using assms by (auto simp: parseLineEntry_def split: option.splits sum.splits)

text \<open>
  What the loop body does with a line that fails to parse: the warning, the increment of
  \<open>totalTraffic\<close>, and the panic.
\<close>

lemma ingest_error:
  assumes "snd (parseLineEntry (TrimSpace rawLine)) = Some err"
  shows "ingest rawLine lg =
           Panicked (lg\<lparr>Output := Output lg @ [''WARNING: '' @ Error err @ [NL]],
                       totalTraffic := totalTraffic lg + 1\<rparr>)"
proof -
  have "parseLineEntry (TrimSpace rawLine) = (None, Some err)"
    using assms parseLineEntry_error_nil [OF assms] by (simp add: prod_eq_iff)
  then show ?thesis by (simp add: ingest_def)
qed

lemma ingest_entry:
  assumes "parseLineEntry (TrimSpace rawLine) = (Some e, None)"
  shows "ingest rawLine lg =
           Running (lg\<lparr>totalTraffic := totalTraffic lg + 1,
                      sectionHits := increment (sectionHits lg) (Section e)\<rparr>)"
  using assms by (simp add: ingest_def)

text \<open>
  Claim C1 says that a line that fails to parse leaves the counters and the running total
  unchanged and costs one warning. The code writes the warning and then goes on with the
  loop body: on the input \<open>garbage\<close>, from the initial state, \<open>totalTraffic\<close> goes from 0
  to 1 and the run panics on \<open>entry.Section\<close>.
\<close>

theorem malformed_line_counted_then_panic:
  "totalTraffic exampleLogger = 0 \<and>
   ingest (''garbage'' @ [NL]) exampleLogger =
     Panicked (exampleLogger
       \<lparr>Output := [''WARNING: could not parse line '' @ [SQ] @ ''garbage'' @ [SQ] @ [NL]],
        totalTraffic := 1\<rparr>)"
proof -
  have "snd (parseLineEntry (TrimSpace (''garbage'' @ [NL]))) =
      Some (ErrorString (''could not parse line '' @ [SQ] @ ''garbage'' @ [SQ]))"
    unfolding trim_garbage by (simp add: parseLineEntry_no_match [OF garbage_no_match])
  from ingest_error [OF this, of exampleLogger]
  show ?thesis by (simp add: exampleLogger_def)
qed



text \<open>
  Claim C4 says that a line whose size field is \<open>-\<close> parses, with \<open>Size = 0\<close>. The pattern
  accepts the dash (group 8 is \<open>[0-9]+|-\<close>), but \<open>strconv.Atoi\<close> is then applied to it as it
  stands and rejects it: \<open>parseLineEntry\<close> returns a nil entry and the error
  \<open>strconv.Atoi: parsing "-": invalid syntax\<close>.
\<close>

theorem dash_size_is_parse_error:
  "FindStringSubmatch commonLogFormatRegexp dashSizeLine =
     Some [dashSizeLine, ''127.0.0.1'', ''frank'', ''10/Oct/2000:13:55:36 -0700'', ''GET'',
           ''/section-a/posts'', ''/section-a'', ''304'', ''-''] \<and>
   Atoi ''-'' = Inl (NumError ''Atoi'' ''-'' ErrSyntax) \<and>
   parseLineEntry dashSizeLine = (None, Some (NumError ''Atoi'' ''-'' ErrSyntax)) \<and>
   Error (NumError ''Atoi'' ''-'' ErrSyntax) =
     ''strconv.Atoi: parsing '' @ [DQ] @ ''-'' @ [DQ] @ '': invalid syntax''"
  using match_dashSizeLine Atoi_dash parseLineEntry_dashSizeLine Error_Atoi_dash by simp




section \<open>Disabled timers\<close>

text \<open>How the messages of the errors of \<open>time.Parse\<close> and \<open>strconv.Atoi\<close> begin.\<close>

lemma ParseError_prefix: "prefix ''parsing time '' (Error (ParseError ly v le ve m))"
  by (simp add: prefix_def)

lemma parseEnd_prefix: "parseEnd a t v = Inl e \<Longrightarrow> prefix ''parsing time '' (Error e)"
  by (auto simp: parseEnd_def prefix_def split: if_splits)

lemma parseZone_prefix: "parseZone a t v = Inl e \<Longrightarrow> prefix ''parsing time '' (Error e)"
  unfolding parseZone_def Let_def
  by (auto simp: ParseError_prefix split: if_splits dest: parseEnd_prefix)

lemma parseSecond_prefix: "parseSecond a t v = Inl e \<Longrightarrow> prefix ''parsing time '' (Error e)"
  unfolding parseSecond_def Let_def
  by (auto simp: ParseError_prefix split: if_splits list.splits option.splits dest: parseZone_prefix)

lemma parseMinute_prefix: "parseMinute a t v = Inl e \<Longrightarrow> prefix ''parsing time '' (Error e)"
  unfolding parseMinute_def
  by (auto simp: ParseError_prefix split: if_splits list.splits option.splits dest: parseSecond_prefix)

lemma parseHour_prefix: "parseHour a t v = Inl e \<Longrightarrow> prefix ''parsing time '' (Error e)"
  unfolding parseHour_def
  by (auto simp: ParseError_prefix split: if_splits list.splits option.splits dest: parseMinute_prefix)

lemma parseYear_prefix: "parseYear a t v = Inl e \<Longrightarrow> prefix ''parsing time '' (Error e)"
  unfolding parseYear_def
  by (auto simp: ParseError_prefix split: if_splits list.splits option.splits dest: parseHour_prefix)

lemma parseMonth_prefix: "parseMonth a t v = Inl e \<Longrightarrow> prefix ''parsing time '' (Error e)"
  unfolding parseMonth_def
  by (auto simp: ParseError_prefix split: if_splits list.splits option.splits dest: parseYear_prefix)

lemma parseCommonLogDate_prefix:
  "parseCommonLogDate v = Inl e \<Longrightarrow> prefix ''parsing time '' (Error e)"
  unfolding parseCommonLogDate_def
  by (auto simp: ParseError_prefix split: if_splits list.splits option.splits dest: parseMonth_prefix)

lemma NumError_prefix: "prefix ''strconv.'' (Error (NumError f n e))"
  by (simp add: prefix_def)

lemma Atoi_prefix: "Atoi s = Inl e \<Longrightarrow> prefix ''strconv.'' (Error e)"
  unfolding Atoi_def Let_def
  by (auto simp: NumError_prefix split: if_splits list.splits prod.splits)

lemma parseLineEntry_error_shape:
  assumes "snd (parseLineEntry line) = Some err"
  shows "prefix ''could not parse line '' (Error err) \<or> prefix ''parsing time '' (Error err) \<or>
         prefix ''strconv.'' (Error err)"
proof (cases "FindStringSubmatch commonLogFormatRegexp line")
  case None
  then have "err = ErrorString (''could not parse line '' @ [SQ] @ line @ [SQ])"
    using assms by (simp add: parseLineEntry_no_match)
  then show ?thesis by (simp add: prefix_def)
next
  case (Some ms)
  from parseLineEntry_subfield [OF Some assms] show ?thesis
    using parseCommonLogDate_prefix Atoi_prefix by blast
qed

lemma prefix_WARNING: "prefix p m \<Longrightarrow> prefix (''WARNING: '' @ p) (''WARNING: '' @ m @ [NL])"
  by (auto simp: prefix_def)

lemma ingest_Output:
  "\<exists>ws. Output (stateOf (ingest rawLine lg)) = Output lg @ ws \<and> (\<forall>w \<in> set ws. isParseWarning w)"
proof (cases "snd (parseLineEntry (TrimSpace rawLine))")
  case None
  then show ?thesis
    by (auto simp: ingest_def stateOf_def Let_def split: prod.splits option.splits)
next
  case (Some err)
  have "isParseWarning (''WARNING: '' @ Error err @ [NL])"
    using parseLineEntry_error_shape [OF Some] prefix_WARNING [of _ "Error err"]
    unfolding isParseWarning_def by fastforce
  then show ?thesis
    using ingest_error [OF Some, of lg] by (simp add: stateOf_def)
qed

lemma ingest_Config:
  "UpdateInterval (stateOf (ingest rawLine lg)) = UpdateInterval lg"
  "HighTrafficInterval (stateOf (ingest rawLine lg)) = HighTrafficInterval lg"
  by (auto simp: ingest_def stateOf_def Let_def split: prod.splits option.splits)

lemma printUpdate_Config:
  "UpdateInterval (printUpdate lg) = UpdateInterval lg"
  "HighTrafficInterval (printUpdate lg) = HighTrafficInterval lg"
  by (auto simp: printUpdate_def Let_def split: prod.splits)

lemma checkHighTraffic_Config:
  "UpdateInterval (checkHighTraffic now lg) = UpdateInterval lg"
  "HighTrafficInterval (checkHighTraffic now lg) = HighTrafficInterval lg"
  by (auto simp: checkHighTraffic_def Let_def)

lemma printUpdate_report:
  "\<exists>w. Output (printUpdate lg) = Output lg @ [w] \<and> isStatusReport w"
  by (simp add: printUpdate_Output isStatusReport_def prefix_def)

lemma checkHighTraffic_warnings:
  "\<exists>ws. Output (checkHighTraffic now lg) = Output lg @ ws \<and> (\<forall>w \<in> set ws. isHighTrafficWarning w)"
  by (auto simp: checkHighTraffic_def Let_def isHighTrafficWarning_def prefix_def)

lemma parseWarning_not_report: "isParseWarning w \<Longrightarrow> \<not> isStatusReport w \<and> \<not> isHighTrafficWarning w"
  by (auto simp: isParseWarning_def isStatusReport_def isHighTrafficWarning_def prefix_def)

lemma highTraffic_not_report: "isHighTrafficWarning w \<Longrightarrow> \<not> isStatusReport w"
  by (auto simp: isStatusReport_def isHighTrafficWarning_def prefix_def)

lemma report_not_highTraffic: "isStatusReport w \<Longrightarrow> \<not> isHighTrafficWarning w"
  by (auto simp: isStatusReport_def isHighTrafficWarning_def prefix_def)

lemma fire_update_disabled:
  assumes "fire e lg = Some out" and "UpdateInterval lg = 0"
  shows "e \<noteq> UpdateTick \<and> UpdateInterval (stateOf out) = 0 \<and>
         (\<exists>ws. Output (stateOf out) = Output lg @ ws \<and> (\<forall>w \<in> set ws. \<not> isStatusReport w))"
proof (cases e)
  case (ReadLine rawLine)
  then have out: "out = ingest rawLine lg" using assms(1) by simp
  show ?thesis
    using ingest_Output [of rawLine lg] ingest_Config(1) [of rawLine lg] assms(2)
      parseWarning_not_report
    unfolding out ReadLine by fastforce
next
  case UpdateTick
  then show ?thesis using assms by (simp add: Tick_def)
next
  case (HighTrafficTick now)
  then have out: "out = Running (checkHighTraffic now lg)"
    using assms(1) by (simp split: option.splits)
  show ?thesis
    using checkHighTraffic_warnings [of now lg] checkHighTraffic_Config(1) [of now lg] assms(2)
      highTraffic_not_report
    unfolding out HighTrafficTick by (fastforce simp: stateOf_def)
qed

lemma fire_highTraffic_disabled:
  assumes "fire e lg = Some out" and "HighTrafficInterval lg = 0"
  shows "(\<forall>now. e \<noteq> HighTrafficTick now) \<and> HighTrafficInterval (stateOf out) = 0 \<and>
         (\<exists>ws. Output (stateOf out) = Output lg @ ws \<and> (\<forall>w \<in> set ws. \<not> isHighTrafficWarning w))"
proof (cases e)
  case (ReadLine rawLine)
  then have out: "out = ingest rawLine lg" using assms(1) by simp
  show ?thesis
    using ingest_Output [of rawLine lg] ingest_Config(2) [of rawLine lg] assms(2)
      parseWarning_not_report
    unfolding out ReadLine by fastforce
next
  case UpdateTick
  then have out: "out = Running (printUpdate lg)"
    using assms(1) by (simp split: option.splits)
  show ?thesis
    using printUpdate_report [of lg] printUpdate_Config(2) [of lg] assms(2)
      report_not_highTraffic
    unfolding out UpdateTick by (fastforce simp: stateOf_def)
next
  case (HighTrafficTick now)
  then show ?thesis using assms by (simp add: Tick_def)
qed

lemma execute_Cons:
  assumes "execute (e # es) lg = Some out"
  obtains mid where "fire e lg = Some mid" and
    "(mid = out \<and> es = []) \<or> (\<exists>lg'. mid = Running lg' \<and> execute es lg' = Some out)"
  using assms by (auto split: option.splits outcome.splits if_splits)

lemma execute_update_disabled:
  assumes "execute es lg = Some out" and "UpdateInterval lg = 0"
  shows "UpdateTick \<notin> set es \<and>
         (\<exists>ws. Output (stateOf out) = Output lg @ ws \<and> (\<forall>w \<in> set ws. \<not> isStatusReport w))"
  using assms
proof (induction es arbitrary: lg)
  case Nil
  then have "out = Running lg" by simp
  then show ?case by (simp add: stateOf_def)
next
  case (Cons e es)
  from Cons.prems(1) obtain mid where f: "fire e lg = Some mid" and
    c: "(mid = out \<and> es = []) \<or> (\<exists>lg'. mid = Running lg' \<and> execute es lg' = Some out)"
    by (rule execute_Cons)
  from fire_update_disabled [OF f Cons.prems(2)]
  obtain ws where e: "e \<noteq> UpdateTick" and u: "UpdateInterval (stateOf mid) = 0"
    and o: "Output (stateOf mid) = Output lg @ ws" and w: "\<forall>w \<in> set ws. \<not> isStatusReport w"
    by blast
  from c show ?case
  proof
    assume "mid = out \<and> es = []"
    then show ?thesis using e o w by auto
  next
    assume "\<exists>lg'. mid = Running lg' \<and> execute es lg' = Some out"
    then obtain lg' where m: "mid = Running lg'" and x: "execute es lg' = Some out" by blast
    have u': "UpdateInterval lg' = 0" using u m by (simp add: stateOf_def)
    from Cons.IH [OF x u'] obtain ws' where "UpdateTick \<notin> set es"
      and "Output (stateOf out) = Output lg' @ ws'" and "\<forall>w \<in> set ws'. \<not> isStatusReport w"
      by blast
    then show ?thesis using e o w m by (auto simp: stateOf_def)
  qed
qed

lemma execute_highTraffic_disabled:
  assumes "execute es lg = Some out" and "HighTrafficInterval lg = 0"
  shows "(\<forall>now. HighTrafficTick now \<notin> set es) \<and>
         (\<exists>ws. Output (stateOf out) = Output lg @ ws \<and> (\<forall>w \<in> set ws. \<not> isHighTrafficWarning w))"
  using assms
proof (induction es arbitrary: lg)
  case Nil
  then have "out = Running lg" by simp
  then show ?case by (simp add: stateOf_def)
next
  case (Cons e es)
  from Cons.prems(1) obtain mid where f: "fire e lg = Some mid" and
    c: "(mid = out \<and> es = []) \<or> (\<exists>lg'. mid = Running lg' \<and> execute es lg' = Some out)"
    by (rule execute_Cons)
  from fire_highTraffic_disabled [OF f Cons.prems(2)]
  obtain ws where e: "\<forall>now. e \<noteq> HighTrafficTick now" and u: "HighTrafficInterval (stateOf mid) = 0"
    and o: "Output (stateOf mid) = Output lg @ ws" and w: "\<forall>w \<in> set ws. \<not> isHighTrafficWarning w"
    by blast
  from c show ?case
  proof
    assume "mid = out \<and> es = []"
    then show ?thesis using e o w by auto
  next
    assume "\<exists>lg'. mid = Running lg' \<and> execute es lg' = Some out"
    then obtain lg' where m: "mid = Running lg'" and x: "execute es lg' = Some out" by blast
    have u': "HighTrafficInterval lg' = 0" using u m by (simp add: stateOf_def)
    from Cons.IH [OF x u'] obtain ws' where "\<forall>now. HighTrafficTick now \<notin> set es"
      and "Output (stateOf out) = Output lg' @ ws'" and "\<forall>w \<in> set ws'. \<not> isHighTrafficWarning w"
      by blast
    then show ?thesis using e o w m by (auto simp: stateOf_def)
  qed
qed

text \<open>
  Claim C6. In every run, that is for every sequence of events that can happen from a
  state, whatever the order and number of lines and ticks: if \<open>UpdateInterval\<close> is zero, no
  update tick occurs and none of the lines written is a status report; if
  \<open>HighTrafficInterval\<close> is zero, no high-traffic tick occurs and none of the lines written
  is a high-traffic warning.
\<close>

theorem disabled_timer_never_fires:
  "(execute es lg = Some out \<and> UpdateInterval lg = 0 \<longrightarrow>
      UpdateTick \<notin> set es \<and>
      (\<exists>ws. Output (stateOf out) = Output lg @ ws \<and> (\<forall>w \<in> set ws. \<not> isStatusReport w))) \<and>
   (execute es lg = Some out \<and> HighTrafficInterval lg = 0 \<longrightarrow>
      (\<forall>now. HighTrafficTick now \<notin> set es) \<and>
      (\<exists>ws. Output (stateOf out) = Output lg @ ws \<and> (\<forall>w \<in> set ws. \<not> isHighTrafficWarning w)))"
  using execute_update_disabled [of es lg out] execute_highTraffic_disabled [of es lg out]
  by blast

lemma ingest_exampleLine:
  "ingest (exampleLine @ [NL]) lg =
     Running (lg\<lparr>totalTraffic := totalTraffic lg + 1,
                sectionHits := increment (sectionHits lg) ''/section-a''\<rparr>)"
proof -
  have "parseLineEntry (TrimSpace (exampleLine @ [NL])) =
     (Some \<lparr>ClientIP = ''127.0.0.1'', UserID = ''frank'',
             Time = \<lparr>year = 2000, month = 10, day = 10, hour = 13, minute = 55,
                      second = 36, nanosecond = 0, zoneOffset = - 25200\<rparr>,
             Method = ''GET'', Section = ''/section-a'', Resource = ''/section-a/posts'',
             Status = 200, Size = 2326\<rparr>,
      None)"
    unfolding trim_exampleLine by (rule parseLineEntry_exampleLine)
  from ingest_entry [OF this, of lg] show ?thesis by simp
qed

lemma Second_pos: "\<not> Second \<le> 0"
  by (simp add: Second_def)

lemma execute_alert:
  "execute [ReadLine (exampleLine @ [NL]), HighTrafficTick exampleNow] alertLogger =
     Some (Running (alertLogger
       \<lparr>Output := [''WARNING: high traffic of 1.00 hits per second, triggered at 2018-03-04T10:20:30Z'' @ [NL]],
        sectionHits := [(''/section-a'', 1)], totalTraffic := 0,
        isHighTrafficTriggered := True\<rparr>))"
  by (simp add: ingest_exampleLine alertLogger_def exampleLogger_def increment_def hitsOf_def
      Tick_def Second_pos checkHighTraffic_def rate_1_00 exampleNow_def)

lemma execute_report:
  "execute [ReadLine (exampleLine @ [NL]), UpdateTick] reportLogger =
     Some (Running (reportLogger
       \<lparr>Output := [''busiest sections: /section-a (1.00 hits per second)'' @ [NL]],
        sectionHits := [], totalTraffic := 1\<rparr>))"
  by (simp add: ingest_exampleLine reportLogger_def exampleLogger_def increment_def hitsOf_def
      Tick_def Second_pos printUpdate_def rate_1_00 Let_def)

text \<open>
  One line and one tick of the enabled timer, in each of the two test configurations; the
  tick of the disabled timer cannot happen.
\<close>

theorem disabled_timer_never_fires_witness:
  "execute [ReadLine (exampleLine @ [NL]), HighTrafficTick exampleNow] alertLogger =
     Some (Running (alertLogger
       \<lparr>Output := [''WARNING: high traffic of 1.00 hits per second, triggered at 2018-03-04T10:20:30Z'' @ [NL]],
        sectionHits := [(''/section-a'', 1)], totalTraffic := 0,
        isHighTrafficTriggered := True\<rparr>)) \<and>
   UpdateInterval alertLogger = 0 \<and>
   UpdateTick \<notin> set [ReadLine (exampleLine @ [NL]), HighTrafficTick exampleNow] \<and>
   \<not> isStatusReport
       (''WARNING: high traffic of 1.00 hits per second, triggered at 2018-03-04T10:20:30Z'' @ [NL]) \<and>
   fire UpdateTick alertLogger = None \<and>
   execute [ReadLine (exampleLine @ [NL]), UpdateTick] reportLogger =
     Some (Running (reportLogger
       \<lparr>Output := [''busiest sections: /section-a (1.00 hits per second)'' @ [NL]],
        sectionHits := [], totalTraffic := 1\<rparr>)) \<and>
   HighTrafficInterval reportLogger = 0 \<and>
   HighTrafficTick exampleNow \<notin> set [ReadLine (exampleLine @ [NL]), UpdateTick] \<and>
   \<not> isHighTrafficWarning (''busiest sections: /section-a (1.00 hits per second)'' @ [NL]) \<and>
   fire (HighTrafficTick exampleNow) reportLogger = None"
proof -
  have ua: "UpdateInterval alertLogger = 0" by (simp add: alertLogger_def)
  have hr: "HighTrafficInterval reportLogger = 0" by (simp add: reportLogger_def)
  have oa: "Output alertLogger = []" by (simp add: alertLogger_def exampleLogger_def)
  have orr: "Output reportLogger = []" by (simp add: reportLogger_def exampleLogger_def)
  from disabled_timer_never_fires
    [of "[ReadLine (exampleLine @ [NL]), HighTrafficTick exampleNow]" alertLogger] execute_alert ua
  have 1: "UpdateTick \<notin> set [ReadLine (exampleLine @ [NL]), HighTrafficTick exampleNow]"
    and 2: "\<not> isStatusReport
       (''WARNING: high traffic of 1.00 hits per second, triggered at 2018-03-04T10:20:30Z'' @ [NL])"
    by (auto simp: stateOf_def oa)
  from disabled_timer_never_fires
    [of "[ReadLine (exampleLine @ [NL]), UpdateTick]" reportLogger] execute_report hr
  have 3: "HighTrafficTick exampleNow \<notin> set [ReadLine (exampleLine @ [NL]), UpdateTick]"
    and 4: "\<not> isHighTrafficWarning (''busiest sections: /section-a (1.00 hits per second)'' @ [NL])"
    by (auto simp: stateOf_def orr)
  have 5: "fire UpdateTick alertLogger = None" by (simp add: Tick_def ua)
  have 6: "fire (HighTrafficTick exampleNow) reportLogger = None" by (simp add: Tick_def hr)
  show ?thesis using execute_alert execute_report ua hr 1 2 3 4 5 6 by (simp only: simp_thms)
qed

section \<open>The section of a parsed line\<close>

lemma concat_map_concat_map:
  "concat (map f (concat (map h xs))) = concat (map (\<lambda>x. concat (map f (h x))) xs)"
  by (induction xs) simp_all

text \<open>Sequences, and the first result of a search through alternatives in order.\<close>

lemma run_Seq_append: "run (Seq (xs @ ys)) st = concat (map (run (Seq ys)) (run (Seq xs) st))"
proof (induction xs arbitrary: st)
  case Nil
  show ?case by simp
next
  case (Cons r rs)
  have "run (Seq (rs @ ys)) = (\<lambda>x. concat (map (run (Seq ys)) (run (Seq rs) x)))"
    by (rule ext) (rule Cons.IH)
  then show ?case by (simp add: concat_map_concat_map)
qed

lemma first_success:
  assumes "concat (map f xs) = y # ys"
  shows "\<exists>pre x post zs. xs = pre @ x # post \<and> (\<forall>x' \<in> set pre. f x' = []) \<and> f x = y # zs"
  using assms
proof (induction xs)
  case Nil
  then show ?case by simp
next
  case (Cons a xs)
  show ?case
  proof (cases "f a")
    case Nil
    with Cons.prems have "concat (map f xs) = y # ys" by simp
    from Cons.IH [OF this] obtain pre x post zs where
      "xs = pre @ x # post" "\<forall>x' \<in> set pre. f x' = []" "f x = y # zs" by blast
    then have "a # xs = (a # pre) @ x # post \<and> (\<forall>x' \<in> set (a # pre). f x' = []) \<and> f x = y # zs"
      using Nil by simp
    then show ?thesis by blast
  next
    case (Cons b bs)
    with Cons.prems have "f a = y # bs" by simp
    then have "a # xs = [] @ a # xs \<and> (\<forall>x' \<in> set []. f x' = []) \<and> f a = y # bs" by simp
    then show ?thesis by blast
  qed
qed

text \<open>
  A repeated class takes the longest run of its bytes first, then gives them back one by
  one.
\<close>

lemma iterate_Class:
  assumes "length (takeWhile P s) \<le> n"
  shows "iterate n (run (Class P)) (p, s, g) =
           map (\<lambda>k. (p + k, drop k s, g)) (rev [0..<Suc (length (takeWhile P s))])"
  using assms
proof (induction n arbitrary: p s)
  case 0
  then show ?case by simp
next
  case (Suc n)
  show ?case
  proof (cases s)
    case Nil
    then show ?thesis by (simp add: remaining_def)
  next
    case (Cons x xs)
    show ?thesis
    proof (cases "P x")
      case False
      then show ?thesis using Cons by (simp add: remaining_def)
    next
      case True
      have le: "length (takeWhile P xs) \<le> n" using Suc.prems Cons True by simp
      have "[0..<Suc (Suc (length (takeWhile P xs)))] =
          0 # [Suc 0..<Suc (Suc (length (takeWhile P xs)))]"
        by (rule upt_conv_Cons) simp
      then have up: "[0..<Suc (Suc (length (takeWhile P xs)))] =
          0 # map Suc [0..<Suc (length (takeWhile P xs))]"
        by (simp only: map_Suc_upt)
      show ?thesis
        using True Cons Suc.IH [OF le, of "Suc p"]
        by (simp add: remaining_def up rev_map comp_def del: upt_Suc)
    qed
  qed
qed

lemma run_Star_Class:
  "run (Star (Class P)) (p, s, g) =
     map (\<lambda>k. (p + k, drop k s, g)) (rev [0..<Suc (length (takeWhile P s))])"
proof -
  have "length (takeWhile P s) \<le> length s" by (rule length_takeWhile_le)
  from iterate_Class [OF this] show ?thesis by (simp add: remaining_def)
qed

lemma run_Plus_Class:
  "run (Plus (Class P)) (p, s, g) =
     map (\<lambda>k. (p + k, drop k s, g)) (rev [1..<Suc (length (takeWhile P s))])"
proof (cases s)
  case Nil
  then show ?thesis by simp
next
  case (Cons x xs)
  show ?thesis
  proof (cases "P x")
    case False
    then show ?thesis using Cons by simp
  next
    case True
    have up: "[Suc 0..<Suc (Suc (length (takeWhile P xs)))] = map Suc [0..<Suc (length (takeWhile P xs))]"
      by (simp only: map_Suc_upt)
    have "length (takeWhile P xs) \<le> length xs" by (rule length_takeWhile_le)
    from iterate_Class [OF this, of "Suc p" g] show ?thesis
      using True Cons by (simp add: remaining_def up rev_map comp_def del: upt_Suc)
  qed
qed

text \<open>An expression changes only its own groups.\<close>

lemma iterate_frame:
  assumes f: "\<And>a b. b \<in> set (f a) \<Longrightarrow> captured b i = captured a i"
    and "st' \<in> set (iterate n f st)"
  shows "captured st' i = captured st i"
  using assms(2)
proof (induction n arbitrary: st)
  case 0
  then show ?case by simp
next
  case (Suc n)
  from Suc.prems have "st' = st \<or> (\<exists>mid \<in> set (f st). st' \<in> set (iterate n f mid))"
    by auto
  then show ?case
  proof
    assume "st' = st"
    then show ?thesis by simp
  next
    assume "\<exists>mid \<in> set (f st). st' \<in> set (iterate n f mid)"
    then obtain mid where m: "mid \<in> set (f st)" and s: "st' \<in> set (iterate n f mid)" by blast
    from Suc.IH [OF s] f [OF m] show ?thesis by simp
  qed
qed

lemma funpow_frame:
  assumes f: "\<And>a b. b \<in> set (f a) \<Longrightarrow> captured b i = captured a i"
    and "st' \<in> set (((\<lambda>sts. concat (map f sts)) ^^ n) sts)"
  shows "\<exists>st \<in> set sts. captured st' i = captured st i"
  using assms(2)
proof (induction n arbitrary: st')
  case 0
  then show ?case by auto
next
  case (Suc n)
  then obtain mid where m: "mid \<in> set (((\<lambda>sts. concat (map f sts)) ^^ n) sts)"
    and s: "st' \<in> set (f mid)"
    by auto
  from Suc.IH [OF m] obtain st where "st \<in> set sts" and "captured mid i = captured st i" by blast
  then show ?case using f [OF s] by auto
qed

lemma run_frame:
  "st' \<in> set (run r st) \<Longrightarrow> i \<notin> groupsOf r \<Longrightarrow> captured st' i = captured st i"
proof (induction r arbitrary: st st')
  case EmptyMatch
  then show ?case by simp
next
  case BeginText
  then show ?case by (simp split: if_splits)
next
  case (Lit c)
  then show ?case by (auto simp: captured_def split: prod.splits list.splits if_splits)
next
  case (Class P)
  then show ?case by (auto simp: captured_def split: prod.splits list.splits if_splits)
next
  case (Cat a b)
  from Cat.prems(1) obtain mid where m: "mid \<in> set (run a st)" and s: "st' \<in> set (run b mid)"
    by auto
  from Cat.prems(2) have "i \<notin> groupsOf a" "i \<notin> groupsOf b" by simp_all
  with Cat.IH(1) [OF m] Cat.IH(2) [OF s] show ?case by simp
next
  case (Alt a b)
  from Alt.prems(1) have "st' \<in> set (run a st) \<or> st' \<in> set (run b st)" by simp
  moreover from Alt.prems(2) have "i \<notin> groupsOf a" "i \<notin> groupsOf b" by simp_all
  ultimately show ?case using Alt.IH by blast
next
  case (Quest a)
  from Quest.prems(1) have "st' \<in> set (run a st) \<or> st' = st" by auto
  moreover from Quest.prems(2) have "i \<notin> groupsOf a" by simp
  ultimately show ?case using Quest.IH by blast
next
  case (Star a)
  have "\<And>x y. y \<in> set (run a x) \<Longrightarrow> captured y i = captured x i"
    using Star.IH Star.prems(2) by simp
  from iterate_frame [of "run a" i, OF this] Star.prems(1) show ?case by simp
next
  case (Plus a)
  have f: "\<And>x y. y \<in> set (run a x) \<Longrightarrow> captured y i = captured x i"
    using Plus.IH Plus.prems(2) by simp
  from Plus.prems(1) obtain mid where m: "mid \<in> set (run a st)"
    and s: "st' \<in> set (iterate (length (remaining mid)) (run a) mid)"
    by auto
  from iterate_frame [of "run a" i, OF f s] f [OF m] show ?case by simp
next
  case (Repeat n a)
  have f: "\<And>x y. y \<in> set (run a x) \<Longrightarrow> captured y i = captured x i"
    using Repeat.IH Repeat.prems(2) by simp
  from funpow_frame [of "run a" i st' n "[st]", OF f] Repeat.prems(1) show ?case by simp
next
  case (Group n a)
  from Group.prems(1) obtain p s g p' s' g' where st: "st = (p, s, g)"
    and m: "(p', s', g') \<in> set (run a st)"
    and st': "st' = (p', s', g'(n \<mapsto> take (length s - length s') s))"
    by (cases st) auto
  from Group.prems(2) have "i \<noteq> n" "i \<notin> groupsOf a" by simp_all
  with Group.IH [OF m] show ?case by (simp add: st' captured_def)
qed

text \<open>
  Whether and where an expression without \<open>^\<close> matches depends on the input left alone, not
  on the position or on the groups set so far.
\<close>

lemma concat_map_rel:
  assumes "list_all2 R xs ys" and "\<And>x y. R x y \<Longrightarrow> list_all2 Q (f x) (g y)"
  shows "list_all2 Q (concat (map f xs)) (concat (map g ys))"
  using assms(1)
proof (induction rule: list_all2_induct)
  case Nil
  show ?case by simp
next
  case (Cons x xs y ys)
  then show ?case using assms(2) by (simp add: list_all2_appendI)
qed

lemma filter_rel:
  assumes "list_all2 R xs ys" and "\<And>x y. R x y \<Longrightarrow> P x = P' y"
  shows "list_all2 R (filter P xs) (filter P' ys)"
  using assms(1)
proof (induction rule: list_all2_induct)
  case Nil
  show ?case by simp
next
  case (Cons x xs y ys)
  then show ?case using assms(2) [of x y] by simp
qed

lemma iterate_sameRest:
  assumes f: "\<And>x y. sameRest x y \<Longrightarrow> list_all2 sameRest (f x) (f y)"
    and "sameRest st st'"
  shows "list_all2 sameRest (iterate n f st) (iterate n f st')"
  using assms(2)
proof (induction n arbitrary: st st')
  case 0
  then show ?case by simp
next
  case (Suc n)
  have 1: "list_all2 sameRest (f st) (f st')" using f Suc.prems by simp
  have 2: "list_all2 sameRest
      (filter (\<lambda>x. length (remaining x) < length (remaining st)) (f st))
      (filter (\<lambda>x. length (remaining x) < length (remaining st')) (f st'))"
    using 1
  proof (rule filter_rel)
    fix x y
    assume "sameRest x y"
    then show "(length (remaining x) < length (remaining st)) =
        (length (remaining y) < length (remaining st'))"
      using Suc.prems by (simp add: sameRest_def)
  qed
  have 3: "list_all2 sameRest
      (concat (map (iterate n f) (filter (\<lambda>x. length (remaining x) < length (remaining st)) (f st))))
      (concat (map (iterate n f) (filter (\<lambda>x. length (remaining x) < length (remaining st')) (f st'))))"
    using 2 Suc.IH by (rule concat_map_rel)
  show ?case using 3 Suc.prems by (simp add: list_all2_appendI)
qed

lemma funpow_sameRest:
  assumes f: "\<And>x y. sameRest x y \<Longrightarrow> list_all2 sameRest (f x) (f y)"
    and "list_all2 sameRest sts sts'"
  shows "list_all2 sameRest (((\<lambda>sts. concat (map f sts)) ^^ n) sts)
           (((\<lambda>sts. concat (map f sts)) ^^ n) sts')"
proof (induction n)
  case 0
  show ?case using assms(2) by simp
next
  case (Suc n)
  show ?case using Suc.IH f by (simp add: concat_map_rel)
qed

lemma run_sameRest:
  "\<not> anchored r \<Longrightarrow> sameRest st st' \<Longrightarrow> list_all2 sameRest (run r st) (run r st')"
proof (induction r arbitrary: st st')
  case EmptyMatch
  then show ?case by simp
next
  case BeginText
  then show ?case by simp
next
  case (Lit c)
  obtain p s g where st: "st = (p, s, g)" by (cases st)
  obtain p' s' g' where st': "st' = (p', s', g')" by (cases st')
  from Lit.prems(2) have "s = s'" by (simp add: st st' sameRest_def remaining_def)
  then show ?case by (simp add: st st' sameRest_def remaining_def split: list.splits)
next
  case (Class P)
  obtain p s g where st: "st = (p, s, g)" by (cases st)
  obtain p' s' g' where st': "st' = (p', s', g')" by (cases st')
  from Class.prems(2) have "s = s'" by (simp add: st st' sameRest_def remaining_def)
  then show ?case by (simp add: st st' sameRest_def remaining_def split: list.splits)
next
  case (Cat a b)
  from Cat.prems(1) have na: "\<not> anchored a" and nb: "\<not> anchored b" by simp_all
  have "list_all2 sameRest (run a st) (run a st')" using Cat.IH(1) na Cat.prems(2) by simp
  then have "list_all2 sameRest (concat (map (run b) (run a st))) (concat (map (run b) (run a st')))"
    using Cat.IH(2) [OF nb] by (rule concat_map_rel)
  then show ?case by simp
next
  case (Alt a b)
  from Alt.prems(1) have na: "\<not> anchored a" and nb: "\<not> anchored b" by simp_all
  show ?case using Alt.IH(1) [OF na Alt.prems(2)] Alt.IH(2) [OF nb Alt.prems(2)]
    by (simp add: list_all2_appendI)
next
  case (Quest a)
  from Quest.prems(1) have na: "\<not> anchored a" by simp
  show ?case using Quest.IH [OF na Quest.prems(2)] Quest.prems(2)
    by (simp add: list_all2_appendI)
next
  case (Star a)
  from Star.prems(1) have na: "\<not> anchored a" by simp
  have l: "length (remaining st) = length (remaining st')"
    using Star.prems(2) by (simp add: sameRest_def)
  show ?case using iterate_sameRest [of "run a" st st', OF Star.IH [OF na] Star.prems(2)] l
    by simp
next
  case (Plus a)
  from Plus.prems(1) have na: "\<not> anchored a" by simp
  have "list_all2 sameRest (run a st) (run a st')" using Plus.IH na Plus.prems(2) by simp
  then have "list_all2 sameRest
      (concat (map (\<lambda>x. iterate (length (remaining x)) (run a) x) (run a st)))
      (concat (map (\<lambda>x. iterate (length (remaining x)) (run a) x) (run a st')))"
  proof (rule concat_map_rel)
    fix x y
    assume r: "sameRest x y"
    then have l: "length (remaining x) = length (remaining y)" by (simp add: sameRest_def)
    show "list_all2 sameRest (iterate (length (remaining x)) (run a) x)
        (iterate (length (remaining y)) (run a) y)"
      unfolding l using Plus.IH [OF na] r by (rule iterate_sameRest)
  qed
  then show ?case by simp
next
  case (Repeat n a)
  from Repeat.prems(1) have na: "\<not> anchored a" by simp
  show ?case
    using funpow_sameRest [of "run a" "[st]" "[st']" n, OF Repeat.IH [OF na]] Repeat.prems(2)
    by simp
next
  case (Group n a)
  from Group.prems(1) have na: "\<not> anchored a" by simp
  obtain p s g where st: "st = (p, s, g)" by (cases st)
  obtain p' s' g' where st': "st' = (p', s', g')" by (cases st')
  have "list_all2 sameRest (run a st) (run a st')" using Group.IH [OF na Group.prems(2)] .
  then have "list_all2
      (\<lambda>x y. sameRest
         (case x of (q, t, h) \<Rightarrow> (q, t, h(n \<mapsto> take (length s - length t) s)))
         (case y of (q, t, h) \<Rightarrow> (q, t, h(n \<mapsto> take (length s' - length t) s'))))
      (run a st) (run a st')"
    by (rule list_all2_mono) (simp add: sameRest_def remaining_def split_def)
  then show ?case
    by (simp add: st st' list_all2_map1 list_all2_map2)
qed

lemma run_Nil_sameRest:
  assumes "\<not> anchored r" and "remaining st = remaining st'"
  shows "(run r st = []) = (run r st' = [])"
proof -
  have "list_all2 sameRest (run r st) (run r st')"
    using assms by (simp add: run_sameRest sameRest_def)
  then have "length (run r st) = length (run r st')" by (rule list_all2_lengthD)
  then show ?thesis by (metis length_0_conv)
qed

lemma sectionChar_resourceChar: "sectionChar c \<Longrightarrow> resourceChar c"
  by (simp add: sectionChar_def resourceChar_def)

lemma resourceChar_slash: "resourceChar c \<Longrightarrow> \<not> sectionChar c \<Longrightarrow> c = CHR ''/''"
  by (auto simp: sectionChar_def resourceChar_def)

lemma takeWhile_is_take: "takeWhile P xs = take (length (takeWhile P xs)) xs"
  by (induction xs) simp_all

lemma take_takeWhile_all:
  assumes "k \<le> length (takeWhile P xs)" and "x \<in> set (take k xs)"
  shows "P x"
proof -
  have "take k xs = take k (take (length (takeWhile P xs)) xs)"
    using assms(1) by (simp add: min_def)
  also have "\<dots> = take k (takeWhile P xs)" using takeWhile_is_take [of P xs] by simp
  finally have "x \<in> set (takeWhile P xs)" using assms(2) by (auto dest: in_set_takeD)
  then show ?thesis by (rule set_takeWhileD [THEN conjunct2])
qed

text \<open>The longest run of resource characters from any point inside the section run.\<close>

lemma resource_run_from:
  assumes "k \<le> length (takeWhile sectionChar t)"
  shows "length (takeWhile resourceChar (drop k t)) + k =
         length (takeWhile resourceChar (drop (length (takeWhile sectionChar t)) t)) +
         length (takeWhile sectionChar t)"
proof -
  let ?n = "length (takeWhile sectionChar t)"
  have n: "?n \<le> length t" by (rule length_takeWhile_le)
  have split: "drop k t = drop k (take ?n t) @ drop ?n t"
    using assms by (metis append_take_drop_id drop_append length_take min.absorb2 n
        diff_is_0_eq drop_0)
  have all: "\<forall>x \<in> set (drop k (take ?n t)). resourceChar x"
  proof
    fix x assume "x \<in> set (drop k (take ?n t))"
    then have "x \<in> set (take ?n t)" by (rule in_set_dropD)
    then have "sectionChar x" using take_takeWhile_all [of ?n sectionChar t x] by simp
    then show "resourceChar x" by (rule sectionChar_resourceChar)
  qed
  have "takeWhile resourceChar (drop k t) =
      drop k (take ?n t) @ takeWhile resourceChar (drop ?n t)"
    unfolding split using all by (simp add: takeWhile_append2)
  then have "length (takeWhile resourceChar (drop k t)) =
      (?n - k) + length (takeWhile resourceChar (drop ?n t))"
    using n by simp
  then show ?thesis using assms by simp
qed

lemma segment_core:
  assumes "j \<le> length (takeWhile resourceChar (drop (length (takeWhile sectionChar t)) t))"
  shows "takeWhile (\<lambda>c. c \<noteq> CHR ''/'') (take (length (takeWhile sectionChar t) + j) t) =
         take (length (takeWhile sectionChar t)) t"
proof -
  let ?n = "length (takeWhile sectionChar t)"
  let ?B = "take j (drop ?n t)"
  have tk: "take (?n + j) t = take ?n t @ ?B" by (simp add: take_add)
  have A: "\<forall>x \<in> set (take ?n t). x \<noteq> CHR ''/''"
  proof
    fix x assume "x \<in> set (take ?n t)"
    then have "sectionChar x" using take_takeWhile_all [of ?n sectionChar t x] by simp
    then show "x \<noteq> CHR ''/''" by (simp add: sectionChar_def)
  qed
  have B: "takeWhile (\<lambda>c. c \<noteq> CHR ''/'') ?B = []"
  proof (cases ?B)
    case Nil
    show ?thesis unfolding Nil by simp
  next
    case (Cons b bs)
    have j: "0 < j" using Cons by (cases j) simp_all
    have lt: "?n < length t"
    proof (rule ccontr)
      assume "\<not> ?n < length t"
      then have "drop ?n t = []" by simp
      then show False using Cons by simp
    qed
    have "hd (take j (drop ?n t)) = hd (drop ?n t)" using j by (simp add: hd_take)
    then have b: "b = t ! ?n" using Cons lt by (simp add: hd_drop_conv_nth)
    have "\<not> sectionChar (t ! ?n)" using lt by (rule nth_length_takeWhile)
    moreover have "resourceChar b"
    proof -
      have "b \<in> set (take j (drop ?n t))" using Cons by simp
      then show ?thesis using take_takeWhile_all [OF assms] by simp
    qed
    ultimately have "b = CHR ''/''" using b resourceChar_slash by simp
    then show ?thesis using Cons by simp
  qed
  show ?thesis unfolding tk using A B by (simp add: takeWhile_append2)
qed

lemma sectionRun_le: "slashLen s + sectionRun s \<le> length s"
proof -
  have "sectionRun s \<le> length (drop (slashLen s) s)"
    unfolding sectionRun_def by (rule length_takeWhile_le)
  moreover have "slashLen s \<le> length s" by (simp add: slashLen_def split: list.splits)
  ultimately show ?thesis by simp
qed

lemma resourceRun_le: "slashLen s + k + resourceRun s k \<le> length s \<or> length s < slashLen s + k"
proof -
  have "resourceRun s k \<le> length (drop (slashLen s + k) s)"
    unfolding resourceRun_def by (rule length_takeWhile_le)
  then show ?thesis by auto
qed

lemma run_patternSection:
  "run patternSection (p, s, g) =
     map (\<lambda>k. (p + slashLen s + k, drop (slashLen s + k) s, g(6 \<mapsto> take (slashLen s + k) s)))
       (rev [1..<Suc (sectionRun s)])"
proof (cases s)
  case Nil
  then show ?thesis
    by (simp add: patternSection_def run_Plus_Class slashLen_def sectionRun_def
        del: run.simps(8) run.simps(9))
next
  case (Cons c t)
  show ?thesis
  proof (cases "c = CHR ''/''")
    case True
    have no: "takeWhile sectionChar (CHR ''/'' # t) = []" by (simp add: sectionChar_def)
    have k0: "slashLen s = 1" using Cons True by (simp add: slashLen_def)
    have n: "sectionRun s = length (takeWhile sectionChar t)"
      using Cons True by (simp add: sectionRun_def slashLen_def)
    have le: "length (takeWhile sectionChar t) \<le> length t" by (rule length_takeWhile_le)
    show ?thesis
      unfolding k0 n using Cons True le
      by (auto simp add: patternSection_def run_Plus_Class sectionChar_def
          simp del: upt_Suc run.simps(8) run.simps(9))
  next
    case False
    have k0: "slashLen s = 0" using Cons False by (simp add: slashLen_def)
    have n: "sectionRun s = length (takeWhile sectionChar s)"
      using Cons False by (simp add: sectionRun_def slashLen_def)
    have le: "length (takeWhile sectionChar s) \<le> length s" by (rule length_takeWhile_le)
    have "run patternSection (p, s, g) =
        map (\<lambda>(p', s', g'). (p', s', g'(6 \<mapsto> take (length s - length s') s)))
          (map (\<lambda>k. (p + k, drop k s, g)) (rev [1..<Suc (length (takeWhile sectionChar s))]))"
      using Cons False
      by (simp add: patternSection_def run_Plus_Class del: upt_Suc run.simps(8) run.simps(9))
    then show ?thesis
      unfolding k0 n using le by (auto simp del: upt_Suc)
  qed
qed

lemma run_group5:
  "run (Group 5 (Cat patternSection (Star (Class resourceChar)))) (p, s, g) =
     concat (map (\<lambda>k. map (candidate p s g k) (rev [0..<Suc (resourceRun s k)]))
       (rev [1..<Suc (sectionRun s)]))"
proof -
  let ?cap = "\<lambda>(p', s', g'). (p', s', g'(5 \<mapsto> take (length s - length s') s))"
  let ?sec = "\<lambda>k. (p + slashLen s + k, drop (slashLen s + k) s, g(6 \<mapsto> take (slashLen s + k) s))"
  have each: "map ?cap (run (Star (Class resourceChar)) (?sec k)) =
      map (candidate p s g k) (rev [0..<Suc (resourceRun s k)])"
    if k: "k \<in> set (rev [1..<Suc (sectionRun s)])" for k
  proof -
    have "k \<le> sectionRun s" using k by (simp del: upt_Suc)
    then have kle: "slashLen s + k \<le> length s" using sectionRun_le [of s] by linarith
    have "map ?cap (run (Star (Class resourceChar)) (?sec k)) =
        map (\<lambda>j. ?cap (p + slashLen s + k + j, drop j (drop (slashLen s + k) s),
                      g(6 \<mapsto> take (slashLen s + k) s)))
          (rev [0..<Suc (resourceRun s k)])"
      by (simp add: run_Star_Class resourceRun_def comp_def del: upt_Suc run.simps(8))
    also have "\<dots> = map (candidate p s g k) (rev [0..<Suc (resourceRun s k)])"
    proof (rule map_cong [OF refl])
      fix j assume "j \<in> set (rev [0..<Suc (resourceRun s k)])"
      then have "j \<le> resourceRun s k" by (simp del: upt_Suc)
      then have "slashLen s + k + j \<le> length s" using resourceRun_le [of s k] kle by linarith
      then show "?cap (p + slashLen s + k + j, drop j (drop (slashLen s + k) s),
                      g(6 \<mapsto> take (slashLen s + k) s)) = candidate p s g k j"
        by (simp add: candidate_def add.commute add.left_commute)
    qed
    finally show ?thesis .
  qed
  have "run (Group 5 (Cat patternSection (Star (Class resourceChar)))) (p, s, g) =
      concat (map (\<lambda>k. map ?cap (run (Star (Class resourceChar)) (?sec k)))
        (rev [1..<Suc (sectionRun s)]))"
    by (simp add: run_patternSection map_concat comp_def del: upt_Suc run.simps(8))
  also have "\<dots> = concat (map (\<lambda>k. map (candidate p s g k) (rev [0..<Suc (resourceRun s k)]))
       (rev [1..<Suc (sectionRun s)]))"
    by (rule arg_cong [where f = concat], rule map_cong [OF refl]) (rule each)
  finally show ?thesis .
qed

lemma firstSegment_candidate:
  assumes "1 \<le> sectionRun s" and "j \<le> resourceRun s (sectionRun s)"
  shows "firstSegment (take (slashLen s + sectionRun s + j) s) = take (slashLen s + sectionRun s) s"
proof (cases s)
  case Nil
  then show ?thesis using assms by (simp add: sectionRun_def)
next
  case (Cons c t)
  show ?thesis
  proof (cases "c = CHR ''/''")
    case True
    have k0: "slashLen s = 1" using Cons True by (simp add: slashLen_def)
    have n: "sectionRun s = length (takeWhile sectionChar t)"
      using Cons True by (simp add: sectionRun_def slashLen_def)
    have "resourceRun s (sectionRun s) =
        length (takeWhile resourceChar (drop (length (takeWhile sectionChar t)) t))"
      unfolding resourceRun_def k0 n using Cons by simp
    then have "j \<le> length (takeWhile resourceChar (drop (length (takeWhile sectionChar t)) t))"
      using assms(2) by simp
    from segment_core [OF this] show ?thesis
      unfolding k0 n using Cons True by (simp add: firstSegment_def)
  next
    case False
    have k0: "slashLen s = 0" using Cons False by (simp add: slashLen_def)
    have n: "sectionRun s = length (takeWhile sectionChar s)"
      using Cons False by (simp add: sectionRun_def slashLen_def)
    have "resourceRun s (sectionRun s) =
        length (takeWhile resourceChar (drop (length (takeWhile sectionChar s)) s))"
      unfolding resourceRun_def k0 n by simp
    then have "j \<le> length (takeWhile resourceChar (drop (length (takeWhile sectionChar s)) s))"
      using assms(2) by simp
    from segment_core [OF this]
    have core: "takeWhile (\<lambda>c. c \<noteq> CHR ''/'') (take (sectionRun s + j) s) = take (sectionRun s) s"
      by (simp add: n)
    obtain m where m: "sectionRun s + j = Suc m" using assms(1) by (cases "sectionRun s + j") simp_all
    have "firstSegment (take (sectionRun s + j) s) =
        takeWhile (\<lambda>c. c \<noteq> CHR ''/'') (take (sectionRun s + j) s)"
      unfolding m using Cons False by (simp add: firstSegment_def)
    then show ?thesis unfolding k0 using core by simp
  qed
qed

lemma section_run_chars:
  assumes "i < sectionRun s"
  shows "sectionChar (s ! (slashLen s + i))"
proof -
  let ?t = "drop (slashLen s) s"
  have "i < length (takeWhile sectionChar ?t)" using assms by (simp add: sectionRun_def)
  then have "takeWhile sectionChar ?t ! i \<in> set (takeWhile sectionChar ?t)" by simp
  then have "sectionChar (takeWhile sectionChar ?t ! i)" by (rule set_takeWhileD [THEN conjunct2])
  moreover have "takeWhile sectionChar ?t ! i = ?t ! i"
    using \<open>i < length (takeWhile sectionChar ?t)\<close> by (rule takeWhile_nth)
  moreover have "?t ! i = s ! (slashLen s + i)"
    using assms sectionRun_le [of s] by simp
  ultimately show ?thesis by simp
qed

lemma candidate_promote:
  assumes "k \<le> sectionRun s" and "j \<le> resourceRun s k"
    and "drop (slashLen s + k + j) s = CHR '' '' # t"
  shows "sectionRun s \<le> k + j \<and> k + j - sectionRun s \<le> resourceRun s (sectionRun s)"
proof -
  have lt: "slashLen s + k + j < length s"
  proof (rule ccontr)
    assume "\<not> slashLen s + k + j < length s"
    then have "drop (slashLen s + k + j) s = []" by simp
    with assms(3) show False by simp
  qed
  have sp: "s ! (slashLen s + k + j) = CHR '' ''"
    using assms(3) lt by (metis hd_drop_conv_nth list.sel(1))
  have ge: "sectionRun s \<le> k + j"
  proof (rule ccontr)
    assume "\<not> sectionRun s \<le> k + j"
    then have "k + j < sectionRun s" by simp
    from section_run_chars [OF this] sp show False by (simp add: sectionChar_def add.assoc)
  qed
  have "length (takeWhile resourceChar (drop k (drop (slashLen s) s))) + k =
      length (takeWhile resourceChar
        (drop (length (takeWhile sectionChar (drop (slashLen s) s))) (drop (slashLen s) s))) +
      length (takeWhile sectionChar (drop (slashLen s) s))"
    using assms(1) by (intro resource_run_from) (simp add: sectionRun_def)
  then have "resourceRun s k + k = resourceRun s (sectionRun s) + sectionRun s"
    by (simp add: resourceRun_def sectionRun_def add.commute)
  then show ?thesis using ge assms(2) by linarith
qed

lemma run_patternTail_space:
  assumes "run (Seq patternTail) st \<noteq> []"
  shows "\<exists>t. remaining st = CHR '' '' # t"
proof -
  obtain p s g where st: "st = (p, s, g)" by (cases st)
  show ?thesis
  proof (cases s)
    case Nil
    then show ?thesis using assms by (simp add: st patternTail_def Str_def)
  next
    case (Cons c t)
    then show ?thesis using assms
      by (cases "c = CHR '' ''") (simp_all add: st patternTail_def Str_def remaining_def)
  qed
qed

lemma groupsOf_patternTail: "groupsOf (Seq patternTail) = {7, 8}"
  by (auto simp: patternTail_def Str_def)

lemma groupsOf_patternHead: "groupsOf (Seq patternHead) = {1, 2, 3, 4}"
  by (auto simp: patternHead_def)

lemma not_anchored_patternTail: "\<not> anchored (Seq patternTail)"
  by (simp add: patternTail_def Str_def)

lemma remaining_candidate: "remaining (candidate p s g k j) = drop (slashLen s + k + j) s"
  by (simp add: candidate_def remaining_def)

lemma captured_candidate:
  "captured (candidate p s g k j) 5 = Some (take (slashLen s + k + j) s)"
  "captured (candidate p s g k j) 6 = Some (take (slashLen s + k) s)"
  by (simp_all add: candidate_def captured_def)

lemma tail_keeps_groups:
  assumes "st \<in> set (run (Seq patternTail) c)"
  shows "groupText st 5 = groupText c 5" and "groupText st 6 = groupText c 6"
  using run_frame [OF assms, of 5] run_frame [OF assms, of 6]
  by (simp_all add: groupsOf_patternTail groupText_def)

lemma run_resource_then_tail:
  "run (Seq (patternResource # patternTail)) (p, s, g) =
     concat (map (\<lambda>k. concat (map (run (Seq patternTail))
                (map (candidate p s g k) (rev [0..<Suc (resourceRun s k)]))))
       (rev [1..<Suc (sectionRun s)])) @
     run (Seq patternTail) (p, s, g)"
proof -
  have "run patternResource (p, s, g) =
      concat (map (\<lambda>k. map (candidate p s g k) (rev [0..<Suc (resourceRun s k)]))
        (rev [1..<Suc (sectionRun s)])) @ [(p, s, g)]"
    unfolding patternResource_def run.simps(7) run_group5 ..
  then show ?thesis
    by (simp add: concat_map_concat_map del: upt_Suc)
qed

text \<open>
  The first match of the resource and what follows it takes the longest section, or no
  resource at all.
\<close>

lemma resource_first_match:
  assumes m: "run (Seq (patternResource # patternTail)) (p, s, g) = st # rest"
    and g5: "g 5 = None" and g6: "g 6 = None"
  shows "groupText st 6 = firstSegment (groupText st 5)"
proof -
  define T where "T = run (Seq patternTail)"
  define n where "n = sectionRun s"
  define W where
    "W = (\<lambda>k. concat (map T (map (candidate p s g k) (rev [0..<Suc (resourceRun s k)]))))"
  define ks where "ks = rev [1..<Suc n]"
  have whole: "concat (map W ks) @ T (p, s, g) = st # rest"
    using m unfolding run_resource_then_tail W_def ks_def T_def n_def .
  have inW: "\<exists>j. j \<le> resourceRun s k \<and> x \<in> set (T (candidate p s g k j))"
    if "x \<in> set (W k)" for x k
    using that unfolding W_def by (auto simp add: less_Suc_eq_le simp del: upt_Suc)
  have Wne: "W k \<noteq> []" if "j \<le> resourceRun s k" and "T (candidate p s g k j) \<noteq> []" for k j
  proof -
    have "j \<in> set (rev [0..<Suc (resourceRun s k)])" using that(1) by (simp del: upt_Suc)
    then show ?thesis using that(2) unfolding W_def by (auto simp del: upt_Suc)
  qed
  show ?thesis
  proof (cases "concat (map W ks)")
    case Nil
    have "T (p, s, g) = st # rest" using whole unfolding Nil by simp
    then have "st \<in> set (run (Seq patternTail) (p, s, g))" unfolding T_def by simp
    from tail_keeps_groups [OF this] show ?thesis
      using g5 g6 by (simp add: groupText_def captured_def firstSegment_def)
  next
    case (Cons a as)
    have "concat (map W ks) = st # as" using whole unfolding Cons by simp
    from first_success [OF this] obtain pre k post zs where
      ks: "ks = pre @ k # post" and pre: "\<forall>k' \<in> set pre. W k' = []" and wk: "W k = st # zs"
      by blast
    have "k \<in> set ks" unfolding ks by simp
    then have k1: "1 \<le> k" and kn: "k \<le> n" unfolding ks_def by (simp_all del: upt_Suc)
    have n1: "1 \<le> n" using k1 kn by simp
    have "st \<in> set (W k)" unfolding wk by simp
    from inW [OF this] obtain j where j: "j \<le> resourceRun s k"
      and stj: "st \<in> set (T (candidate p s g k j))"
      by blast
    have ne: "T (candidate p s g k j) \<noteq> []" using stj by auto
    have hd: "ks = n # rev [1..<n]" unfolding ks_def using n1 by simp
    have kn': "k = n"
    proof (rule ccontr)
      assume neq: "k \<noteq> n"
      have "pre \<noteq> []"
      proof
        assume "pre = []"
        then have "k = n" using ks hd by simp
        with neq show False ..
      qed
      then obtain pre' where "pre = n # pre'" using ks hd by (cases pre) simp_all
      then have wn: "W n = []" using pre by simp
      from run_patternTail_space [OF ne [unfolded T_def]] obtain t where
        sp: "drop (slashLen s + k + j) s = CHR '' '' # t"
        by (auto simp: remaining_candidate)
      from candidate_promote [OF kn [unfolded n_def] j sp]
      have ge: "n \<le> k + j" and le: "k + j - n \<le> resourceRun s n"
        unfolding n_def by simp_all
      have "remaining (candidate p s g n (k + j - n)) = remaining (candidate p s g k j)"
        using ge by (simp add: remaining_candidate add.assoc)
      from run_Nil_sameRest [OF not_anchored_patternTail this]
      have "T (candidate p s g n (k + j - n)) \<noteq> []"
        using ne unfolding T_def by simp
      from Wne [OF le this] wn show False ..
    qed
    have j': "j \<le> resourceRun s (sectionRun s)" using j kn' n_def by simp
    have n1': "1 \<le> sectionRun s" using n1 n_def by simp
    from tail_keeps_groups [OF stj [unfolded T_def]]
    have "groupText st 5 = take (slashLen s + sectionRun s + j) s"
      and "groupText st 6 = take (slashLen s + sectionRun s) s"
      by (simp_all add: groupText_def captured_candidate kn' n_def)
    then show ?thesis using firstSegment_candidate [OF n1' j'] by simp
  qed
qed

lemma pattern_first_match:
  assumes "run commonLogFormatRegexp (p, s, Map.empty) = st # rest"
  shows "groupText st 6 = firstSegment (groupText st 5)"
proof -
  have "concat (map (run (Seq (patternResource # patternTail)))
      (run (Seq patternHead) (p, s, Map.empty))) = st # rest"
    using assms unfolding commonLogFormatRegexp_def run_Seq_append .
  from first_success [OF this] obtain pre st1 post zs where
    sp: "run (Seq patternHead) (p, s, Map.empty) = pre @ st1 # post"
    and r: "run (Seq (patternResource # patternTail)) st1 = st # zs"
    by blast
  have in1: "st1 \<in> set (run (Seq patternHead) (p, s, Map.empty))" unfolding sp by simp
  obtain p1 s1 g1 where st1: "st1 = (p1, s1, g1)" by (cases st1)
  have "captured st1 5 = None" "captured st1 6 = None"
    using run_frame [OF in1, of 5] run_frame [OF in1, of 6]
    by (simp_all add: groupsOf_patternHead captured_def)
  then have "g1 5 = None" "g1 6 = None" by (simp_all add: st1 captured_def)
  with r show ?thesis unfolding st1 by (rule resource_first_match)
qed

lemma search_run:
  "search re p s = Some (s0, st) \<Longrightarrow> \<exists>p' rest. run re (p', s0, Map.empty) = st # rest"
proof (induction re p s rule: search.induct)
  case (1 re p s)
  note eq = search.simps [of re p s]
  show ?case
  proof (cases "run re (p, s, Map.empty)")
    case (Cons a as)
    have "search re p s = Some (s, a)" using Cons by (subst eq) simp
    then have "s0 = s" "st = a" using "1.prems" by simp_all
    then show ?thesis using Cons by blast
  next
    case Nil
    show ?thesis
    proof (cases s)
      case Nil': Nil
      have "search re p s = None" using Nil Nil' by (subst eq) simp
      then show ?thesis using "1.prems" by simp
    next
      case (Cons c cs)
      have "search re p s = search re (Suc p) cs" using Nil Cons by (subst eq) simp
      then have "search re (Suc p) cs = Some (s0, st)" using "1.prems" by simp
      from "1.IH" [OF Nil Cons this] show ?thesis .
    qed
  qed
qed

lemma numSubexp_pattern: "numSubexp commonLogFormatRegexp = 8"
  by (simp add: commonLogFormatRegexp_def patternHead_def patternResource_def patternSection_def
      patternTail_def Str_def)

lemma submatch_section:
  assumes "FindStringSubmatch commonLogFormatRegexp line = Some ms"
  shows "ms ! 6 = firstSegment (ms ! 5)"
proof -
  from assms obtain s0 st where s: "search commonLogFormatRegexp 0 line = Some (s0, st)"
    and ms: "ms = take (length s0 - length (remaining st)) s0 #
               map (groupText st) [1..<Suc (numSubexp commonLogFormatRegexp)]"
    by (auto simp: FindStringSubmatch_def groupText_def split: option.splits)
  have up: "[1..<9] = [1, 2, 3, 4, 5, 6, 7, 8::nat]" by (simp add: upt_rec)
  have "ms ! 5 = groupText st 5" "ms ! 6 = groupText st 6"
    unfolding ms numSubexp_pattern by (simp_all add: up)
  moreover from search_run [OF s] obtain p' rest where
    "run commonLogFormatRegexp (p', s0, Map.empty) = st # rest" by blast
  then have "groupText st 6 = firstSegment (groupText st 5)" by (rule pattern_first_match)
  ultimately show ?thesis by simp
qed

lemma parseLineEntry_entry:
  assumes "fst (parseLineEntry line) = Some e"
  shows "\<exists>ms. FindStringSubmatch commonLogFormatRegexp line = Some ms \<and>
           Section e = ms ! 6 \<and> Resource e = ms ! 5"
  using assms by (auto simp: parseLineEntry_def split: option.splits sum.splits)

lemma firstSegment_Nil: "(firstSegment r = []) = (r = [])"
  by (cases r) (simp_all add: firstSegment_def)

text \<open>
  Claim C3, amended. For every line \<open>parseLineEntry\<close> accepts, \<open>Section\<close> is the first segment
  of \<open>Resource\<close> together with its leading slash, if it has one; it is empty exactly when
  the resource is empty.
\<close>

theorem Section_is_first_segment:
  assumes "fst (parseLineEntry line) = Some e"
  shows "Section e = firstSegment (Resource e) \<and> (Section e = [] \<longleftrightarrow> Resource e = [])"
proof -
  from parseLineEntry_entry [OF assms] obtain ms where
    "FindStringSubmatch commonLogFormatRegexp line = Some ms"
    and "Section e = ms ! 6" and "Resource e = ms ! 5"
    by blast
  then have "Section e = firstSegment (Resource e)" using submatch_section by simp
  then show ?thesis using firstSegment_Nil [of "Resource e"] by simp
qed

text \<open>
  Claim C3 says that the section is the first path segment without the leading slash, and
  that the path \<open>/\<close> gives an empty section. Group 6 of the pattern is \<open>(/?[^/ "]+)\<close>: it
  includes the slash, so \<open>/section-a/posts\<close> gives \<open>/section-a\<close> (which is what the
  repository's test expects to be printed); and it needs at least one byte after the
  slash, so the line with the path \<open>/\<close> does not match at all.
\<close>

theorem Section_without_slash_counterexample:
  "map_option Resource (fst (parseLineEntry exampleLine)) = Some ''/section-a/posts'' \<and>
   map_option Section (fst (parseLineEntry exampleLine)) = Some ''/section-a'' \<and>
   segmentAfterSlash ''/section-a/posts'' = ''section-a'' \<and>
   ''/section-a'' \<noteq> ''section-a'' \<and>
   fst (parseLineEntry rootPathLine) = None"
  by (simp add: parseLineEntry_exampleLine parseLineEntry_rootPathLine segmentAfterSlash_def)

theorem Section_is_first_segment_witness:
  "map_option Resource (fst (parseLineEntry exampleLine)) = Some ''/section-a/posts'' \<and>
   map_option Section (fst (parseLineEntry exampleLine)) = Some ''/section-a'' \<and>
   firstSegment ''/section-a/posts'' = ''/section-a''"
proof -
  let ?e = "\<lparr>ClientIP = ''127.0.0.1'', UserID = ''frank'',
             Time = \<lparr>year = 2000, month = 10, day = 10, hour = 13, minute = 55,
                      second = 36, nanosecond = 0, zoneOffset = - 25200\<rparr>,
             Method = ''GET'', Section = ''/section-a'', Resource = ''/section-a/posts'',
             Status = 200, Size = 2326\<rparr>"
  have p: "fst (parseLineEntry exampleLine) = Some ?e"
    by (simp add: parseLineEntry_exampleLine)
  from Section_is_first_segment [OF p]
  have "firstSegment ''/section-a/posts'' = ''/section-a''" by simp
  then show ?thesis using p by simp
qed

section \<open>The lock\<close>

text \<open>
  Claim C10 says that every access to the shared state is made under the lock. The lock
  guards \<open>sectionHits\<close> only: the loop body of \<open>Run\<close> increments \<open>totalTraffic\<close> before it
  takes the lock, and \<open>checkHighTraffic\<close> reads and writes \<open>totalTraffic\<close> and the flag
  without taking it, whatever the line and the state. The accesses to \<open>sectionHits\<close>, in
  \<open>printUpdate\<close> and in the loop body, are under the lock.
\<close>

theorem totalTraffic_outside_lock:
  "\<not> guarded (ingestAccesses entry) \<and> \<not> guarded (checkHighTrafficAccesses lg) \<and>
   guarded printUpdateAccesses \<and>
   guarded (filter (\<lambda>a. a \<in> {Lock, Unlock, Read SectionHits, Write SectionHits})
              (ingestAccesses (Some e)))"
  by (simp add: guarded_def ingestAccesses_def checkHighTrafficAccesses_def
      printUpdateAccesses_def)

end
